theory Spec2Isabelle
  imports Complex_Main "HOL-Library.Word" "HOL-Library.Sublist"
begin

section \<open>The price level of a limit order book (src/core/Limit.cpp)\<close>

text \<open>
  A shallow embedding of \<^verbatim>\<open>Limit::addOrderToLimit\<close>, \<^verbatim>\<open>Limit::processFill\<close>,
  \<^verbatim>\<open>Limit::logExecution\<close> and \<^verbatim>\<open>Limit::decreaseSize\<close>.

  \<^item> C++ \<^verbatim>\<open>int\<close>, \<^verbatim>\<open>unsigned int\<close> and \<^verbatim>\<open>uint32_t\<close> are \<open>32 word\<close>, \<^verbatim>\<open>uint64_t\<close> is
    \<open>64 word\<close>. Arithmetic wraps; \<open><s\<close> and \<open>\<le>s\<close> are the signed comparisons of
    \<^verbatim>\<open>int\<close>, \<open><\<close> and \<open>\<le>\<close> the unsigned ones. The conversions between \<^verbatim>\<open>int\<close> and
    \<^verbatim>\<open>unsigned int\<close> keep the 32 bits, so they are the identity on \<open>32 word\<close>.
  \<^item> An \<^verbatim>\<open>Order*\<close> is an \<open>addr option\<close>: \<open>None\<close> is \<^verbatim>\<open>nullptr\<close>, \<open>Some a\<close> points to the
    object at index \<open>a\<close> of the object store. The store only grows
    (\<^verbatim>\<open>std::make_unique\<close> allocates at the end); nothing in Limit.cpp frees an Order.
  \<^item> The running average prices are computed by the expression
    \<^verbatim>\<open>(executedQuantity * avgPrice + executionVolume * limit) / totalExecQty\<close>, whose
    arithmetic type is that of \<^verbatim>\<open>avgPrice\<close>, declared in headers that are not part of
    the sources. The type is the parameter \<open>'p\<close> and the expression the parameter
    \<open>wavg\<close> of the functions below, applied to its five operands in the order in which
    they occur in the expression. What the division does when its divisor is 0 is part
    of the parameter.
\<close>

type_synonym addr = nat

datatype Side = Buy | Sell

datatype ExecutionType = PartialFill | FullFill

datatype error =
  SelfTradeRejected    \<comment> \<open>the \<^verbatim>\<open>std::runtime_error\<close> thrown by processFill\<close>
| BadPointer           \<comment> \<open>dereferencing \<^verbatim>\<open>nullptr\<close> or a pointer to no object\<close>

text \<open>The order intent handed to the engine (\<^verbatim>\<open>OrderData\<close>).\<close>

record 'p OrderData =
  clientId :: "32 word"
  orderSide :: Side
  limitPx :: "32 word"
  shares :: "32 word"
  executedQuantity :: "32 word"
  avgPrice :: 'p

text \<open>
  A resting \<^verbatim>\<open>Order\<close>; the fields are named after its accessors (\<^verbatim>\<open>getShares\<close>,
  \<^verbatim>\<open>getNextOrder\<close>, ...). The back-reference to the parent Limit is never read in
  Limit.cpp and is left out.
\<close>

record 'p Order =
  getOrderId :: "64 word"
  getClientId :: "32 word"
  getOrderSide :: Side
  getLimit :: "32 word"
  getShares :: "32 word"
  getExecutedQuantity :: "32 word"
  getAvgPrice :: 'p
  getPrevOrder :: "addr option"
  getNextOrder :: "addr option"

text \<open>
  Modelled from the spec: the constructor \<^verbatim>\<open>Order(orderData, this, newOrderId)\<close>
  (Order.h and Order.cpp are not part of the sources). The resting order takes its
  client, side, price, remaining shares and running execution state from the intent
  and starts unlinked.
\<close>

definition newOrder :: "'p OrderData \<Rightarrow> 64 word \<Rightarrow> 'p Order" where
  "newOrder orderData newOrderId =
     \<lparr> getOrderId = newOrderId,
       getClientId = clientId orderData,
       getOrderSide = orderSide orderData,
       getLimit = limitPx orderData,
       getShares = shares orderData,
       getExecutedQuantity = executedQuantity orderData,
       getAvgPrice = avgPrice orderData,
       getPrevOrder = None,
       getNextOrder = None \<rparr>"

text \<open>The output record; the fields in the order of section 3 of the specification.\<close>

record 'p Execution =
  symbol :: string
  executionId :: "64 word"
  makerOrderId :: "64 word"
  takerOrderId :: "64 word"
  execPrice :: "32 word"
  execSize :: "32 word"
  makerSide :: Side
  takerSide :: Side
  makerExecType :: ExecutionType
  takerExecType :: ExecutionType
  makerClientId :: "32 word"
  takerClientId :: "32 word"
  makerCumQty :: "32 word"
  takerCumQty :: "32 word"
  makerLeavesQty :: "32 word"
  takerLeavesQty :: "32 word"
  makerAvgPrice :: 'p
  takerAvgPrice :: 'p

text \<open>
  Modelled from the spec: the constructor of \<^verbatim>\<open>Execution\<close> (Execution.h is not part
  of the sources). It is positional; its eighteen parameters are the fields in the
  order in which section 3 of the specification enumerates them. The call in
  \<^verbatim>\<open>logExecution\<close> annotates the sixth parameter as \<^verbatim>\<open>unsigned int\<close> and the fifth as
  \<^verbatim>\<open>double\<close>; the conversion of a 32-bit \<^verbatim>\<open>int\<close> price to \<^verbatim>\<open>double\<close> is exact, and
  \<open>execPrice\<close> keeps the integer.
\<close>

definition mkExecution ::
  "string \<Rightarrow> 64 word \<Rightarrow> 64 word \<Rightarrow> 64 word \<Rightarrow> 32 word \<Rightarrow> 32 word \<Rightarrow> Side \<Rightarrow> Side \<Rightarrow>
   ExecutionType \<Rightarrow> ExecutionType \<Rightarrow> 32 word \<Rightarrow> 32 word \<Rightarrow> 32 word \<Rightarrow> 32 word \<Rightarrow>
   32 word \<Rightarrow> 32 word \<Rightarrow> 'p \<Rightarrow> 'p \<Rightarrow> 'p Execution" where
  "mkExecution a1 a2 a3 a4 a5 a6 a7 a8 a9 a10 a11 a12 a13 a14 a15 a16 a17 a18 =
     \<lparr> symbol = a1, executionId = a2, makerOrderId = a3, takerOrderId = a4,
       execPrice = a5, execSize = a6, makerSide = a7, takerSide = a8,
       makerExecType = a9, takerExecType = a10, makerClientId = a11, takerClientId = a12,
       makerCumQty = a13, takerCumQty = a14, makerLeavesQty = a15, takerLeavesQty = a16,
       makerAvgPrice = a17, takerAvgPrice = a18 \<rparr>"

text \<open>
  The part of the \<^verbatim>\<open>Book\<close> that Limit.cpp touches: the symbol, the execution-id
  counter, the order index \<^verbatim>\<open>allOrders\<close> (order id to owned Order object), the
  execution queue, and the Order objects themselves (\<open>store\<close>), which the index owns.
\<close>

record 'p Book =
  bookSymbol :: string
  nextExecutionId :: "64 word"
  allOrders :: "64 word \<rightharpoonup> addr"
  executionQueue :: "'p Execution list"
  store :: "'p Order list"

text \<open>
  Modelled from the spec: the four \<^verbatim>\<open>Book\<close> methods that Limit.cpp calls (Book.h and
  Book.cpp are not part of the sources). The index maps the order id to the Order, the
  id counter hands out consecutive ids, the execution queue is appended at the back.
\<close>

definition addOrderToAllOrders :: "'p Book \<Rightarrow> addr \<Rightarrow> 'p Book" where
  "addOrderToAllOrders book p =
     book\<lparr>allOrders := (allOrders book)(getOrderId (store book ! p) \<mapsto> p)\<rparr>"

definition getSymbol :: "'p Book \<Rightarrow> string" where
  "getSymbol book = bookSymbol book"

definition getNextExecutionId :: "'p Book \<Rightarrow> 64 word \<times> 'p Book" where
  "getNextExecutionId book =
     (nextExecutionId book, book\<lparr>nextExecutionId := nextExecutionId book + 1\<rparr>)"

definition addExecutionToQueue :: "'p Book \<Rightarrow> 'p Execution \<Rightarrow> 'p Book" where
  "addExecutionToQueue book e = book\<lparr>executionQueue := executionQueue book @ [e]\<rparr>"

text \<open>
  The price level. The member \<^verbatim>\<open>size\<close> is the field \<open>limitSize\<close>; like \<^verbatim>\<open>totalVolume\<close>
  it is an \<^verbatim>\<open>int\<close>, the type that its getter returns.
\<close>

record Limit =
  limitPrice :: "32 word"
  limitSize :: "32 word"
  totalVolume :: "32 word"
  headOrder :: "addr option"
  tailOrder :: "addr option"

definition newLimit :: "32 word \<Rightarrow> Limit" where
  "newLimit p =
     \<lparr> limitPrice = p, limitSize = 0, totalVolume = 0, headOrder = None, tailOrder = None \<rparr>"

subsection \<open>addOrderToLimit\<close>

text \<open>
  The new Order is allocated at the end of the store. When \<^verbatim>\<open>headOrder\<close> is not null the
  code dereferences \<^verbatim>\<open>tailOrder\<close>; a null or dangling \<^verbatim>\<open>tailOrder\<close> is the error
  \<open>BadPointer\<close>.
\<close>

definition addOrderToLimit ::
  "Limit \<Rightarrow> 'p OrderData \<Rightarrow> 'p Book \<Rightarrow> 64 word \<Rightarrow> error + (Limit \<times> 'p Book)" where
  "addOrderToLimit L orderData book newOrderId =
     (let newOrderPtr = length (store book);
          book1 = book\<lparr>store := store book @ [newOrder orderData newOrderId]\<rparr>;
          L1 = L\<lparr>totalVolume := totalVolume L + shares orderData,
                 limitSize := limitSize L + 1\<rparr>
      in case headOrder L1 of
           None \<Rightarrow>
             Inr (L1\<lparr>headOrder := Some newOrderPtr, tailOrder := Some newOrderPtr\<rparr>,
                  addOrderToAllOrders book1 newOrderPtr)
         | Some h \<Rightarrow>
             (case tailOrder L1 of
                None \<Rightarrow> Inl BadPointer
              | Some t \<Rightarrow>
                  if t < length (store book1) then
                    let st1 = (store book1)[newOrderPtr :=
                                 (store book1 ! newOrderPtr)\<lparr>getPrevOrder := Some t\<rparr>];
                        st2 = st1[t := (st1 ! t)\<lparr>getNextOrder := Some newOrderPtr\<rparr>]
                    in Inr (L1\<lparr>tailOrder := Some newOrderPtr\<rparr>,
                            addOrderToAllOrders (book1\<lparr>store := st2\<rparr>) newOrderPtr)
                  else Inl BadPointer))"

subsection \<open>decreaseSize and logExecution\<close>

definition decreaseSize :: "Limit \<Rightarrow> Limit" where
  "decreaseSize L = (if 0 <s limitSize L then L\<lparr>limitSize := limitSize L - 1\<rparr> else L)"

text \<open>
  \<^verbatim>\<open>logExecution(executionVolume, takerOrderId, takerData, makerOrder, book)\<close> with
  \<open>makerOrder\<close> a pointer to an object of the store. It returns the updated intent and
  the updated book (whose store holds the updated maker).
\<close>

definition logExecution ::
  "(32 word \<Rightarrow> 'p \<Rightarrow> 32 word \<Rightarrow> 32 word \<Rightarrow> 32 word \<Rightarrow> 'p) \<Rightarrow>
   32 word \<Rightarrow> 64 word \<Rightarrow> 'p OrderData \<Rightarrow> addr \<Rightarrow> 'p Book \<Rightarrow> 'p OrderData \<times> 'p Book" where
  "logExecution wavg executionVolume takerOrdId takerData makerOrder book =
     (let maker = store book ! makerOrder;
          remainingTakerShares = shares takerData - executionVolume;
          remainingMakerShares = getShares maker - executionVolume;
          takerExecutionType =
            (if remainingTakerShares = 0 then FullFill else PartialFill);
          makerExecutionType =
            (if executionVolume = getShares maker then FullFill else PartialFill);
          makerTotalExecQty = getExecutedQuantity maker + executionVolume;
          takerTotalExecQty = executedQuantity takerData + executionVolume;
          maker1 = maker\<lparr>getAvgPrice :=
                     wavg (getExecutedQuantity maker) (getAvgPrice maker)
                          executionVolume (getLimit maker) makerTotalExecQty\<rparr>;
          takerData1 = takerData\<lparr>avgPrice :=
                     wavg (executedQuantity takerData) (avgPrice takerData)
                          executionVolume (getLimit maker1) takerTotalExecQty\<rparr>;
          maker2 = maker1\<lparr>getExecutedQuantity := makerTotalExecQty\<rparr>;
          takerData2 = takerData1\<lparr>executedQuantity :=
                     executedQuantity takerData1 + executionVolume\<rparr>;
          (execId, book1) = getNextExecutionId book;
          execution = mkExecution
            (getSymbol book)
            execId
            (getOrderId maker2)
            takerOrdId
            (getLimit maker2)
            executionVolume
            (getOrderSide maker2)
            (orderSide takerData2)
            makerExecutionType
            takerExecutionType
            (clientId takerData2)
            (getClientId maker2)
            makerTotalExecQty
            takerTotalExecQty
            remainingMakerShares
            remainingTakerShares
            (getAvgPrice maker2)
            (avgPrice takerData2)
      in (takerData2,
          addExecutionToQueue (book1\<lparr>store := (store book1)[makerOrder := maker2]\<rparr>)
            execution))"

subsection \<open>processFill\<close>

text \<open>
  The state of the loop of \<^verbatim>\<open>processFill\<close>: the local \<^verbatim>\<open>nxtOrder\<close>, the Limit
  (\<^verbatim>\<open>this\<close>), the intent \<^verbatim>\<open>takerData\<close> (a reference, updated in place) and the book.
  An exception leaves the objects as they are when it is thrown, so both outcomes
  carry the state.
\<close>

record 'p fill =
  nxtOrder :: "addr option"
  lmt :: Limit
  taker :: "'p OrderData"
  bk :: "'p Book"

datatype 'a outcome = Returns 'a | Throws error 'a

fun stateOf :: "'a outcome \<Rightarrow> 'a" where
  "stateOf (Returns s) = s"
| "stateOf (Throws e s) = s"

fun thrown :: "'a outcome \<Rightarrow> error option" where
  "thrown (Returns s) = None"
| "thrown (Throws e s) = Some e"

text \<open>The loop condition \<^verbatim>\<open>nxtOrder != nullptr && size != 0 && takerData.shares != 0\<close>.\<close>

definition fillCond :: "'p fill \<Rightarrow> bool" where
  "fillCond s \<longleftrightarrow> nxtOrder s \<noteq> None \<and> limitSize (lmt s) \<noteq> 0 \<and> shares (taker s) \<noteq> 0"

text \<open>\<^verbatim>\<open>nxtOrder\<close> points to an object of the store, so that it can be dereferenced.\<close>

definition validNxt :: "'p fill \<Rightarrow> bool" where
  "validNxt s \<longleftrightarrow> (case nxtOrder s of None \<Rightarrow> False | Some a \<Rightarrow> a < length (store (bk s)))"

text \<open>The test \<^verbatim>\<open>takerClientId == nxtOrder->getClientId()\<close> of line 56.\<close>

definition selfTrade :: "'p fill \<Rightarrow> bool" where
  "selfTrade s \<longleftrightarrow>
     (case nxtOrder s of None \<Rightarrow> False
      | Some a \<Rightarrow> clientId (taker s) = getClientId (store (bk s) ! a))"

text \<open>
  \<^verbatim>\<open>std::min\<close> on two \<^verbatim>\<open>int\<close>s: the first argument unless the second is smaller.
\<close>

definition stdMin :: "32 word \<Rightarrow> 32 word \<Rightarrow> 32 word" where
  "stdMin x y = (if y <s x then y else x)"

text \<open>
  The loop body after the self-trade check (lines 59 to 75), for \<open>nxtOrder = Some a\<close>.
  The test \<^verbatim>\<open>executionVolume >= orderShares\<close> compares as \<^verbatim>\<open>unsigned int\<close>.
\<close>

definition fillBody ::
  "(32 word \<Rightarrow> 'p \<Rightarrow> 32 word \<Rightarrow> 32 word \<Rightarrow> 32 word \<Rightarrow> 'p) \<Rightarrow> 64 word \<Rightarrow> addr \<Rightarrow> 'p fill \<Rightarrow> 'p fill" where
  "fillBody wavg orderId a s =
     (let orderShares = getShares (store (bk s) ! a);
          executionVolume = stdMin orderShares (shares (taker s));
          (takerData1, book1) = logExecution wavg executionVolume orderId (taker s) a (bk s);
          L1 = (lmt s)\<lparr>totalVolume := totalVolume (lmt s) - executionVolume\<rparr>
      in if orderShares \<le> executionVolume then
           let takerData2 = takerData1\<lparr>shares := shares takerData1 - orderShares\<rparr>;
               L2 = decreaseSize L1;
               nxt = getNextOrder (store book1 ! a)
           in \<lparr> nxtOrder = nxt, lmt = L2\<lparr>headOrder := nxt\<rparr>, taker = takerData2, bk = book1 \<rparr>
         else
           let book2 = book1\<lparr>store := (store book1)[a :=
                          (store book1 ! a)\<lparr>getShares := orderShares - executionVolume\<rparr>]\<rparr>;
               takerData2 = takerData1\<lparr>shares := shares takerData1 - executionVolume\<rparr>
           in \<lparr> nxtOrder = nxtOrder s, lmt = L1, taker = takerData2, bk = book2 \<rparr>)"

definition fillStep ::
  "(32 word \<Rightarrow> 'p \<Rightarrow> 32 word \<Rightarrow> 32 word \<Rightarrow> 32 word \<Rightarrow> 'p) \<Rightarrow> 64 word \<Rightarrow> 'p fill \<Rightarrow> 'p fill" where
  "fillStep wavg orderId s = fillBody wavg orderId (the (nxtOrder s)) s"

text \<open>
  The \<^verbatim>\<open>while\<close> loop. The result is \<open>None\<close> when the loop does not terminate.
\<close>

partial_function (option) fillLoop ::
  "(32 word \<Rightarrow> 'p \<Rightarrow> 32 word \<Rightarrow> 32 word \<Rightarrow> 32 word \<Rightarrow> 'p) \<Rightarrow> 64 word \<Rightarrow> 'p fill \<Rightarrow>
   'p fill outcome option" where
  "fillLoop wavg orderId s =
     (if fillCond s then
        if \<not> validNxt s then Some (Throws BadPointer s)
        else if selfTrade s then Some (Throws SelfTradeRejected s)
        else fillLoop wavg orderId (fillStep wavg orderId s)
      else Some (Returns s))"

declare fillLoop.simps [code]

text \<open>The state on entry: \<^verbatim>\<open>Order* nxtOrder = headOrder\<close>.\<close>

definition startFill :: "Limit \<Rightarrow> 'p OrderData \<Rightarrow> 'p Book \<Rightarrow> 'p fill" where
  "startFill L takerData book =
     \<lparr> nxtOrder = headOrder L, lmt = L, taker = takerData, bk = book \<rparr>"

definition processFill ::
  "(32 word \<Rightarrow> 'p \<Rightarrow> 32 word \<Rightarrow> 32 word \<Rightarrow> 32 word \<Rightarrow> 'p) \<Rightarrow>
   Limit \<Rightarrow> 'p OrderData \<Rightarrow> 64 word \<Rightarrow> 'p Book \<Rightarrow> 'p fill outcome option" where
  "processFill wavg L takerData orderId book =
     fillLoop wavg orderId (startFill L takerData book)"

section \<open>The queue of a Limit and its invariants\<close>

text \<open>
  The FIFO queue of a Limit is the chain of Order objects reached from \<^verbatim>\<open>headOrder\<close>
  through the \<^verbatim>\<open>next\<close> pointers. \<open>fifo st p as\<close> says that the chain that starts at
  the pointer \<open>p\<close> visits exactly the objects \<open>as\<close>, in this order, and ends in
  \<^verbatim>\<open>nullptr\<close>.
\<close>

primrec fifo :: "'p Order list \<Rightarrow> addr option \<Rightarrow> addr list \<Rightarrow> bool" where
  "fifo st p [] \<longleftrightarrow> p = None"
| "fifo st p (a # as) \<longleftrightarrow> p = Some a \<and> a < length st \<and> fifo st (getNextOrder (st ! a)) as"

text \<open>
  A well-formed Limit with queue \<open>as\<close>: the chain from \<^verbatim>\<open>headOrder\<close> is \<open>as\<close>, a
  non-empty queue ends at \<^verbatim>\<open>tailOrder\<close>, the number of orders fits an \<^verbatim>\<open>int\<close>, and
  every resting order has a positive number of shares (the invariant of an Order in
  the data model of the specification).
\<close>

definition wfQueue :: "'p Order list \<Rightarrow> Limit \<Rightarrow> addr list \<Rightarrow> bool" where
  "wfQueue st L as \<longleftrightarrow>
     fifo st (headOrder L) as \<and>
     (as \<noteq> [] \<longrightarrow> tailOrder L = Some (last as)) \<and>
     length as < 2 ^ 31 \<and>
     (\<forall>a \<in> set as. 0 <s getShares (st ! a))"

text \<open>
  The aggregates of a Limit with queue \<open>as\<close>: \<^verbatim>\<open>size\<close> is the number of orders and
  \<^verbatim>\<open>totalVolume\<close> the sum of their remaining shares (in 32-bit arithmetic).
\<close>

definition countsOK :: "'p Order list \<Rightarrow> Limit \<Rightarrow> addr list \<Rightarrow> bool" where
  "countsOK st L as \<longleftrightarrow>
     unat (limitSize L) = length as \<and>
     totalVolume L = sum_list (map (\<lambda>a. getShares (st ! a)) as)"

text \<open>
  The loop invariant of \<^verbatim>\<open>processFill\<close> on a well-formed Limit with queue \<open>as0\<close>,
  started in the state \<open>s0\<close>: the first \<open>j\<close> orders of \<open>as0\<close> have been filled
  completely and unlinked, \<open>new\<close> are the executions appended so far, one per filled
  order in queue order and possibly one more for a partial fill of the order at
  position \<open>j\<close>, which leaves the taker without shares.
\<close>

definition runInv ::
  "'p fill \<Rightarrow> addr list \<Rightarrow> nat \<Rightarrow> 'p Execution list \<Rightarrow> 'p fill \<Rightarrow> bool" where
  "runInv s0 as0 j new s \<longleftrightarrow>
     j \<le> length as0 \<and>
     nxtOrder s = headOrder (lmt s) \<and>
     wfQueue (store (bk s)) (lmt s) (drop j as0) \<and>
     countsOK (store (bk s)) (lmt s) (drop j as0) \<and>
     0 \<le>s shares (taker s) \<and>
     executionQueue (bk s) = executionQueue (bk s0) @ new \<and>
     (length new = j \<or> (length new = Suc j \<and> j < length as0 \<and> shares (taker s) = 0)) \<and>
     map makerOrderId new = map (\<lambda>a. getOrderId (store (bk s0) ! a)) (take (length new) as0) \<and>
     map makerExecType new = replicate j FullFill @ replicate (length new - j) PartialFill \<and>
     allOrders (bk s) = allOrders (bk s0) \<and>
     map getOrderId (store (bk s)) = map getOrderId (store (bk s0)) \<and>
     map getClientId (store (bk s)) = map getClientId (store (bk s0)) \<and>
     clientId (taker s) = clientId (taker s0)"

text \<open>
  What the loop has matched so far, in the same situation: the orders of \<open>as0\<close> that
  have no Execution yet still have the shares they had in \<open>s0\<close>; each of the first \<open>j\<close>
  Executions has the size of the whole resting order it filled; the sizes of all
  Executions add up to what the taker's shares have dropped by; and none of the
  orders matched so far belongs to the taker's client.
\<close>

definition matchInv ::
  "'p fill \<Rightarrow> addr list \<Rightarrow> nat \<Rightarrow> 'p Execution list \<Rightarrow> 'p fill \<Rightarrow> bool" where
  "matchInv s0 as0 j new s \<longleftrightarrow>
     map (\<lambda>a. getShares (store (bk s) ! a)) (drop (length new) as0) =
       map (\<lambda>a. getShares (store (bk s0) ! a)) (drop (length new) as0) \<and>
     map execSize (take j new) = map (\<lambda>a. getShares (store (bk s0) ! a)) (take j as0) \<and>
     shares (taker s) + sum_list (map execSize new) = shares (taker s0) \<and>
     (\<forall>a \<in> set (take (length new) as0). getClientId (store (bk s0) ! a) \<noteq> clientId (taker s0))"

text \<open>
  \<open>beforeFill \<dots> i\<close> is the state of \<^verbatim>\<open>processFill\<close> after \<open>i\<close> executions of the loop body,
  that is, before the iteration with index \<open>i\<close>. \<open>runs wavg oid s n\<close> says that, started
  in \<open>s\<close>, the loop executes its body at least \<open>n\<close> times: in each of the first \<open>n\<close>
  iterations the loop condition holds, \<^verbatim>\<open>nxtOrder\<close> can be dereferenced and the
  self-trade test is negative.
\<close>

definition beforeFill ::
  "(32 word \<Rightarrow> 'p \<Rightarrow> 32 word \<Rightarrow> 32 word \<Rightarrow> 32 word \<Rightarrow> 'p) \<Rightarrow>
   Limit \<Rightarrow> 'p OrderData \<Rightarrow> 64 word \<Rightarrow> 'p Book \<Rightarrow> nat \<Rightarrow> 'p fill" where
  "beforeFill wavg L takerData orderId book i =
     (fillStep wavg orderId ^^ i) (startFill L takerData book)"

definition runs :: "(32 word \<Rightarrow> 'p \<Rightarrow> 32 word \<Rightarrow> 32 word \<Rightarrow> 32 word \<Rightarrow> 'p) \<Rightarrow> 64 word \<Rightarrow> 'p fill \<Rightarrow> nat \<Rightarrow> bool" where
  "runs wavg oid s n \<longleftrightarrow>
     (\<forall>i \<in> {..<n}. fillCond ((fillStep wavg oid ^^ i) s) \<and>
                     validNxt ((fillStep wavg oid ^^ i) s) \<and>
                     \<not> selfTrade ((fillStep wavg oid ^^ i) s))"

section \<open>Sample books\<close>

text \<open>
  Concrete inputs on which the model is run. The average-price expression is
  instantiated with exact rational arithmetic.
\<close>

definition wavgRat :: "32 word \<Rightarrow> rat \<Rightarrow> 32 word \<Rightarrow> 32 word \<Rightarrow> 32 word \<Rightarrow> rat" where
  "wavgRat q a v l t = (of_int (sint q) * a + of_int (sint v) * of_int (sint l)) / of_int (sint t)"

definition intent :: "32 word \<Rightarrow> Side \<Rightarrow> 32 word \<Rightarrow> 32 word \<Rightarrow> rat OrderData" where
  "intent c sd p n =
     \<lparr> clientId = c, orderSide = sd, limitPx = p, shares = n, executedQuantity = 0, avgPrice = 0 \<rparr>"

definition emptyBook :: "rat Book" where
  "emptyBook = \<lparr> bookSymbol = ''XYZ'', nextExecutionId = 1, allOrders = Map.empty,
                 executionQueue = [], store = [] \<rparr>"

text \<open>One resting bid at 100: order 7 of client 1 for 5 shares.\<close>

definition oneBidLimit :: Limit where
  "oneBidLimit =
     \<lparr> limitPrice = 100, limitSize = 1, totalVolume = 5, headOrder = Some 0, tailOrder = Some 0 \<rparr>"

definition oneBidBook :: "rat Book" where
  "oneBidBook =
     \<lparr> bookSymbol = ''XYZ'', nextExecutionId = 1, allOrders = [7 \<mapsto> 0],
       executionQueue = [],
       store = [newOrder (intent 1 Buy 100 5) 7] \<rparr>"

text \<open>
  Two resting bids at 100: order 7 of client 1 for 2 shares, then order 8 of client 2 for
  3 shares (scenario S5 of the specification).
\<close>

definition twoBidsLimit :: Limit where
  "twoBidsLimit =
     \<lparr> limitPrice = 100, limitSize = 2, totalVolume = 5, headOrder = Some 0, tailOrder = Some 1 \<rparr>"

definition twoBidsBook :: "rat Book" where
  "twoBidsBook =
     \<lparr> bookSymbol = ''XYZ'', nextExecutionId = 1, allOrders = [7 \<mapsto> 0, 8 \<mapsto> 1],
       executionQueue = [],
       store = [(newOrder (intent 1 Buy 100 2) 7)\<lparr>getNextOrder := Some 1\<rparr>,
                (newOrder (intent 2 Buy 100 3) 8)\<lparr>getPrevOrder := Some 0\<rparr>] \<rparr>"

text \<open>
  The state in which \<^verbatim>\<open>processFill\<close> returns when client 2 sells 5 shares at 100
  (taker order id 9) into \<open>oneBidLimit\<close>.
\<close>

definition oneBidFilled :: "rat fill" where
  "oneBidFilled =
     \<lparr> nxtOrder = None,
       lmt = \<lparr> limitPrice = 100, limitSize = 0, totalVolume = 0, headOrder = None,
               tailOrder = Some 0 \<rparr>,
       taker = \<lparr> clientId = 2, orderSide = Sell, limitPx = 100, shares = 0,
                 executedQuantity = 5, avgPrice = 100 \<rparr>,
       bk = \<lparr> bookSymbol = ''XYZ'', nextExecutionId = 2, allOrders = [7 \<mapsto> 0],
              executionQueue =
                [\<lparr> symbol = ''XYZ'', executionId = 1, makerOrderId = 7, takerOrderId = 9,
                   execPrice = 100, execSize = 5, makerSide = Buy, takerSide = Sell,
                   makerExecType = FullFill, takerExecType = FullFill,
                   makerClientId = 2, takerClientId = 1, makerCumQty = 5, takerCumQty = 5,
                   makerLeavesQty = 0, takerLeavesQty = 0,
                   makerAvgPrice = 100, takerAvgPrice = 100 \<rparr>],
              store = [\<lparr> getOrderId = 7, getClientId = 1, getOrderSide = Buy, getLimit = 100,
                        getShares = 5, getExecutedQuantity = 5, getAvgPrice = 100,
                        getPrevOrder = None, getNextOrder = None \<rparr>] \<rparr> \<rparr>"

text \<open>
  The state in which \<^verbatim>\<open>processFill\<close> returns when client 3 sells 4 shares at 100
  (taker order id 9) into \<open>twoBidsLimit\<close>.
\<close>

definition twoBidsFilled :: "rat fill" where
  "twoBidsFilled =
     \<lparr> nxtOrder = Some 1,
       lmt = \<lparr> limitPrice = 100, limitSize = 1, totalVolume = 1, headOrder = Some 1,
               tailOrder = Some 1 \<rparr>,
       taker = \<lparr> clientId = 3, orderSide = Sell, limitPx = 100, shares = 0,
                 executedQuantity = 4, avgPrice = 100 \<rparr>,
       bk = \<lparr> bookSymbol = ''XYZ'', nextExecutionId = 3, allOrders = [7 \<mapsto> 0, 8 \<mapsto> 1],
              executionQueue =
                [\<lparr> symbol = ''XYZ'', executionId = 1, makerOrderId = 7, takerOrderId = 9,
                   execPrice = 100, execSize = 2, makerSide = Buy, takerSide = Sell,
                   makerExecType = FullFill, takerExecType = PartialFill,
                   makerClientId = 3, takerClientId = 1, makerCumQty = 2, takerCumQty = 2,
                   makerLeavesQty = 0, takerLeavesQty = 2,
                   makerAvgPrice = 100, takerAvgPrice = 100 \<rparr>,
                 \<lparr> symbol = ''XYZ'', executionId = 2, makerOrderId = 8, takerOrderId = 9,
                   execPrice = 100, execSize = 2, makerSide = Buy, takerSide = Sell,
                   makerExecType = PartialFill, takerExecType = FullFill,
                   makerClientId = 3, takerClientId = 2, makerCumQty = 2, takerCumQty = 4,
                   makerLeavesQty = 1, takerLeavesQty = 0,
                   makerAvgPrice = 100, takerAvgPrice = 100 \<rparr>],
              store = [\<lparr> getOrderId = 7, getClientId = 1, getOrderSide = Buy, getLimit = 100,
                        getShares = 2, getExecutedQuantity = 2, getAvgPrice = 100,
                        getPrevOrder = None, getNextOrder = Some 1 \<rparr>,
                       \<lparr> getOrderId = 8, getClientId = 2, getOrderSide = Buy, getLimit = 100,
                        getShares = 1, getExecutedQuantity = 2, getAvgPrice = 100,
                        getPrevOrder = Some 0, getNextOrder = None \<rparr>] \<rparr> \<rparr>"

text \<open>
  The state in which \<^verbatim>\<open>processFill\<close> throws when client 2, who owns the second
  resting order, sells 4 shares at 100 (taker order id 9) into \<open>twoBidsLimit\<close>.
\<close>

definition twoBidsRejected :: "rat fill" where
  "twoBidsRejected =
     \<lparr> nxtOrder = Some 1,
       lmt = \<lparr> limitPrice = 100, limitSize = 1, totalVolume = 3, headOrder = Some 1,
               tailOrder = Some 1 \<rparr>,
       taker = \<lparr> clientId = 2, orderSide = Sell, limitPx = 100, shares = 2,
                 executedQuantity = 2, avgPrice = 100 \<rparr>,
       bk = \<lparr> bookSymbol = ''XYZ'', nextExecutionId = 2, allOrders = [7 \<mapsto> 0, 8 \<mapsto> 1],
              executionQueue =
                [\<lparr> symbol = ''XYZ'', executionId = 1, makerOrderId = 7, takerOrderId = 9,
                   execPrice = 100, execSize = 2, makerSide = Buy, takerSide = Sell,
                   makerExecType = FullFill, takerExecType = PartialFill,
                   makerClientId = 2, takerClientId = 1, makerCumQty = 2, takerCumQty = 2,
                   makerLeavesQty = 0, takerLeavesQty = 2,
                   makerAvgPrice = 100, takerAvgPrice = 100 \<rparr>],
              store = [\<lparr> getOrderId = 7, getClientId = 1, getOrderSide = Buy, getLimit = 100,
                        getShares = 2, getExecutedQuantity = 2, getAvgPrice = 100,
                        getPrevOrder = None, getNextOrder = Some 1 \<rparr>,
                       \<lparr> getOrderId = 8, getClientId = 2, getOrderSide = Buy, getLimit = 100,
                        getShares = 3, getExecutedQuantity = 0, getAvgPrice = 0,
                        getPrevOrder = Some 0, getNextOrder = None \<rparr>] \<rparr> \<rparr>"

section \<open>Properties\<close>


subsection \<open>The effect of one iteration\<close>

lemmas fill_defs = fillBody_def logExecution_def Let_def split_def getNextExecutionId_def
  addExecutionToQueue_def decreaseSize_def getSymbol_def

lemma fillStep_Some: "nxtOrder s = Some a \<Longrightarrow> fillStep wavg oid s = fillBody wavg oid a s"
  by (simp add: fillStep_def)

lemma fillBody_allOrders: "allOrders (bk (fillBody wavg oid a s)) = allOrders (bk s)"
  by (simp add: fill_defs)

lemma fillBody_length: "length (store (bk (fillBody wavg oid a s))) = length (store (bk s))"
  by (simp add: fill_defs)

lemma fillBody_other:
  "b \<noteq> a \<Longrightarrow> store (bk (fillBody wavg oid a s)) ! b = store (bk s) ! b"
  by (simp add: fill_defs)

lemma fillBody_links:
  "getNextOrder (store (bk (fillBody wavg oid a s)) ! b) = getNextOrder (store (bk s) ! b) \<and>
   getPrevOrder (store (bk (fillBody wavg oid a s)) ! b) = getPrevOrder (store (bk s) ! b) \<and>
   getOrderId (store (bk (fillBody wavg oid a s)) ! b) = getOrderId (store (bk s) ! b) \<and>
   getClientId (store (bk (fillBody wavg oid a s)) ! b) = getClientId (store (bk s) ! b) \<and>
   getLimit (store (bk (fillBody wavg oid a s)) ! b) = getLimit (store (bk s) ! b) \<and>
   getOrderSide (store (bk (fillBody wavg oid a s)) ! b) = getOrderSide (store (bk s) ! b)"
proof (cases "a < length (store (bk s))")
  case True
  then show ?thesis by (simp add: fill_defs nth_list_update)
next
  case False
  then show ?thesis by (simp add: fill_defs list_update_beyond)
qed

lemma fillBody_shares:
  "a < length (store (bk s)) \<Longrightarrow>
   getShares (store (bk (fillBody wavg oid a s)) ! a) =
     (let m = getShares (store (bk s) ! a); ev = stdMin m (shares (taker s))
      in if m \<le> ev then m else m - ev)"
  by (simp add: fill_defs)

lemma fillBody_taker:
  "shares (taker (fillBody wavg oid a s)) =
     (let m = getShares (store (bk s) ! a); ev = stdMin m (shares (taker s))
      in if m \<le> ev then shares (taker s) - m else shares (taker s) - ev)"
  "clientId (taker (fillBody wavg oid a s)) = clientId (taker s)"
  "orderSide (taker (fillBody wavg oid a s)) = orderSide (taker s)"
  "limitPx (taker (fillBody wavg oid a s)) = limitPx (taker s)"
  "executedQuantity (taker (fillBody wavg oid a s)) =
     executedQuantity (taker s) + stdMin (getShares (store (bk s) ! a)) (shares (taker s))"
  by (simp_all add: fill_defs)

lemma fillBody_nxt:
  "nxtOrder (fillBody wavg oid a s) =
     (let m = getShares (store (bk s) ! a); ev = stdMin m (shares (taker s))
      in if m \<le> ev then getNextOrder (store (bk s) ! a) else nxtOrder s)"
proof (cases "a < length (store (bk s))")
  case True
  then show ?thesis by (simp add: fill_defs)
next
  case False
  then show ?thesis by (simp add: fill_defs list_update_beyond)
qed

lemma fillBody_head:
  "headOrder (lmt (fillBody wavg oid a s)) =
     (let m = getShares (store (bk s) ! a); ev = stdMin m (shares (taker s))
      in if m \<le> ev then getNextOrder (store (bk s) ! a) else headOrder (lmt s))"
proof (cases "a < length (store (bk s))")
  case True
  then show ?thesis by (simp add: fill_defs)
next
  case False
  then show ?thesis by (simp add: fill_defs list_update_beyond)
qed

lemma fillBody_lim:
  "tailOrder (lmt (fillBody wavg oid a s)) = tailOrder (lmt s)"
  "limitPrice (lmt (fillBody wavg oid a s)) = limitPrice (lmt s)"
  "totalVolume (lmt (fillBody wavg oid a s)) =
     totalVolume (lmt s) - stdMin (getShares (store (bk s) ! a)) (shares (taker s))"
  "limitSize (lmt (fillBody wavg oid a s)) =
     (let m = getShares (store (bk s) ! a); ev = stdMin m (shares (taker s))
      in if m \<le> ev \<and> 0 <s limitSize (lmt s) then limitSize (lmt s) - 1 else limitSize (lmt s))"
  by (simp_all add: fill_defs)

lemma fillBody_execution:
  "\<exists>e. executionQueue (bk (fillBody wavg oid a s)) = executionQueue (bk s) @ [e] \<and>
     symbol e = bookSymbol (bk s) \<and>
     executionId e = nextExecutionId (bk s) \<and>
     makerOrderId e = getOrderId (store (bk s) ! a) \<and>
     takerOrderId e = oid \<and>
     execPrice e = getLimit (store (bk s) ! a) \<and>
     execSize e = stdMin (getShares (store (bk s) ! a)) (shares (taker s)) \<and>
     makerSide e = getOrderSide (store (bk s) ! a) \<and>
     takerSide e = orderSide (taker s) \<and>
     makerExecType e = (if execSize e = getShares (store (bk s) ! a) then FullFill else PartialFill) \<and>
     takerExecType e = (if shares (taker s) - execSize e = 0 then FullFill else PartialFill) \<and>
     makerClientId e = clientId (taker s) \<and>
     takerClientId e = getClientId (store (bk s) ! a) \<and>
     makerCumQty e = getExecutedQuantity (store (bk s) ! a) + execSize e \<and>
     takerCumQty e = executedQuantity (taker s) + execSize e \<and>
     makerLeavesQty e = getShares (store (bk s) ! a) - execSize e \<and>
     takerLeavesQty e = shares (taker s) - execSize e"
  by (simp add: fill_defs mkExecution_def)



subsection \<open>The queue as a list of addresses\<close>

lemma fifo_functional: "fifo st p as \<Longrightarrow> fifo st p bs \<Longrightarrow> as = bs"
proof (induction as arbitrary: p bs)
  case Nil
  then show ?case by (cases bs) auto
next
  case (Cons a as)
  then show ?case by (cases bs) auto
qed

lemma fifo_suffix: "fifo st p (as @ bs) \<Longrightarrow> \<exists>q. fifo st q bs"
  by (induction as arbitrary: p) auto

lemma fifo_head_fresh:
  assumes "fifo st (getNextOrder (st ! a)) as"
  shows "a \<notin> set as"
proof
  assume "a \<in> set as"
  then obtain bs cs where split: "as = bs @ a # cs"
    by (auto simp: in_set_conv_decomp)
  with assms obtain q where "fifo st q (a # cs)"
    using fifo_suffix by blast
  then have "fifo st (getNextOrder (st ! a)) cs" by simp
  with assms have "as = cs" by (rule fifo_functional)
  with split show False by simp
qed

lemma fifo_distinct: "fifo st p as \<Longrightarrow> distinct as"
  by (induction as arbitrary: p) (auto dest: fifo_head_fresh)

lemma fifo_bounds: "fifo st p as \<Longrightarrow> a \<in> set as \<Longrightarrow> a < length st"
  by (induction as arbitrary: p) auto

lemma fifo_cong:
  assumes "length st' = length st"
    and "\<And>b. b \<in> set as \<Longrightarrow> getNextOrder (st' ! b) = getNextOrder (st ! b)"
  shows "fifo st' p as = fifo st p as"
  using assms by (induction as arbitrary: p) auto

lemma fifo_fillBody:
  "fifo (store (bk (fillBody wavg oid a s))) p as = fifo (store (bk s)) p as"
  by (rule fifo_cong) (simp_all add: fillBody_length fillBody_links)

lemma fifo_last_next:
  "fifo st p as \<Longrightarrow> as \<noteq> [] \<Longrightarrow> getNextOrder (st ! last as) = None"
  by (induction as arbitrary: p) auto

subsection \<open>A total-correctness rule for the loop\<close>

lemma fillLoop_rule:
  assumes step: "\<And>n s. I n s \<Longrightarrow> fillCond s \<Longrightarrow>
            validNxt s \<and> (\<not> selfTrade s \<longrightarrow> (\<exists>n'<n. I n' (fillStep wavg oid s)))"
    and init: "I (n::nat) s"
  shows "\<exists>r n'. fillLoop wavg oid s = Some r \<and> I n' (stateOf r) \<and>
           (case r of Returns s' \<Rightarrow> \<not> fillCond s'
            | Throws e s' \<Rightarrow> e = SelfTradeRejected \<and> fillCond s' \<and> selfTrade s')"
  using init
proof (induction n arbitrary: s rule: less_induct)
  case (less n)
  show ?case
  proof (cases "fillCond s")
    case False
    then have "fillLoop wavg oid s = Some (Returns s)"
      by (subst fillLoop.simps) simp
    with False less.prems show ?thesis by auto
  next
    case True
    from step [OF less.prems True] have v: "validNxt s"
      and nxt: "\<not> selfTrade s \<Longrightarrow> \<exists>n'<n. I n' (fillStep wavg oid s)" by auto
    show ?thesis
    proof (cases "selfTrade s")
      case True
      with \<open>fillCond s\<close> v have "fillLoop wavg oid s = Some (Throws SelfTradeRejected s)"
        by (subst fillLoop.simps) simp
      with True \<open>fillCond s\<close> less.prems show ?thesis by auto
    next
      case False
      with nxt obtain n' where n': "n' < n" "I n' (fillStep wavg oid s)" by blast
      from False \<open>fillCond s\<close> v
      have "fillLoop wavg oid s = fillLoop wavg oid (fillStep wavg oid s)"
        by (subst fillLoop.simps) simp
      with less.IH [OF n'] show ?thesis by simp
    qed
  qed
qed



subsection \<open>Signed and unsigned 32-bit arithmetic\<close>

lemma sint_nonneg_uint: "0 \<le> sint (w::32 word) \<Longrightarrow> uint w = sint w"
proof -
  assume a: "0 \<le> sint w"
  have "sint w < 2 ^ 31" using sint_lt [of w] by simp
  then have "sint w < 2 ^ 32" by simp
  with a have "take_bit 32 (sint w) = sint w" by (simp add: take_bit_int_eq_self)
  then show ?thesis by (simp add: uint_sint)
qed

lemma small_uint_sint: "uint (w::32 word) < 2 ^ 31 \<Longrightarrow> sint w = uint w"
proof -
  assume a: "uint w < 2 ^ 31"
  have "signed_take_bit 31 (uint w) = uint w"
  proof (rule signed_take_bit_int_eq_self)
    show "- (2 ^ 31) \<le> uint w" by (rule order_trans [of _ 0]) simp_all
    show "uint w < 2 ^ 31" by (rule a)
  qed
  then show ?thesis by (simp add: sint_uint)
qed

lemma pos_sub_sint:
  fixes m t :: "32 word"
  assumes "0 <s m" "m \<le>s t"
  shows "sint (t - m) = sint t - sint m"
proof -
  have a: "0 < sint m" "sint m \<le> sint t"
    using assms by (simp_all add: word_sless_alt word_sle_eq)
  have b: "sint t < 2 ^ 31" using sint_lt [of t] by simp
  have "sint (t - m) = signed_take_bit 31 (sint t - sint m)"
    by (simp add: sint_word_ariths)
  also have "\<dots> = sint t - sint m"
    using a b by (intro signed_take_bit_int_eq_self) auto
  finally show ?thesis .
qed

lemma pos_sub_nonneg:
  fixes m t :: "32 word"
  assumes "0 <s m" "m \<le>s t"
  shows "0 \<le>s t - m"
  using pos_sub_sint [OF assms] assms by (simp add: word_sless_alt word_sle_eq)

lemma pos_sless_unsigned:
  fixes m t :: "32 word"
  assumes "0 <s t" "t <s m"
  shows "\<not> m \<le> t"
proof -
  have a: "0 < sint t" "sint t < sint m" using assms by (simp_all add: word_sless_alt)
  then have "uint t = sint t" "uint m = sint m" by (simp_all add: sint_nonneg_uint)
  with a show ?thesis by (simp add: word_le_def)
qed

lemma pos_sub_pos:
  fixes m t :: "32 word"
  assumes "0 <s t" "t <s m"
  shows "0 <s m - t"
proof -
  have "t \<le>s m" using assms by (simp add: word_sless_alt word_sle_eq)
  from pos_sub_sint [OF assms(1) this] assms show ?thesis by (simp add: word_sless_alt)
qed

lemma size_dec:
  fixes sz :: "32 word"
  assumes "unat sz = Suc n" "Suc n < 2 ^ 31"
  shows "sz \<noteq> 0" "0 <s sz" "unat (sz - 1) = n"
proof -
  show nz: "sz \<noteq> 0" using assms by auto
  have u: "uint sz = int (Suc n)" using assms(1) by (metis uint_nat)
  have "int (Suc n) < 2 ^ 31"
    using assms(2) by (metis of_nat_less_iff of_nat_numeral of_nat_power)
  with u have "sint sz = int (Suc n)" by (simp add: small_uint_sint)
  then show "0 <s sz" by (simp add: word_sless_alt)
  show "unat (sz - 1) = n" using nz assms(1) by (simp add: unat_minus_one)
qed

lemma size_inc:
  fixes sz :: "32 word"
  assumes "unat sz = n" "Suc n < 2 ^ 31"
  shows "unat (sz + 1) = Suc n"
proof -
  have "unat sz + 1 < 2 ^ 32" using assms by simp
  then have "unat (sz + 1) = unat sz + 1"
    by (simp add: unat_word_ariths)
  then show ?thesis using assms by simp
qed

lemma stdMin_full: "m \<le>s t \<Longrightarrow> stdMin m t = m"
  by (auto simp: stdMin_def)

lemma stdMin_part: "t <s m \<Longrightarrow> stdMin m t = t"
  by (simp add: stdMin_def)

lemma sle_or_sless: "(m::32 word) \<le>s t \<or> t <s m"
  by (auto simp: word_sle_eq word_sless_alt)

subsection \<open>One iteration on a well-formed queue\<close>

lemma step_full:
  fixes wavg :: "32 word \<Rightarrow> 'p \<Rightarrow> 32 word \<Rightarrow> 32 word \<Rightarrow> 32 word \<Rightarrow> 'p"
    and oid :: "64 word" and s :: "'p fill"
  assumes nxt: "nxtOrder s = headOrder (lmt s)"
    and wf: "wfQueue (store (bk s)) (lmt s) (a # as)"
    and cnt: "countsOK (store (bk s)) (lmt s) (a # as)"
    and full: "getShares (store (bk s) ! a) \<le>s shares (taker s)"
  defines "s' \<equiv> fillStep wavg oid s"
  shows "nxtOrder s' = headOrder (lmt s')"
    and "wfQueue (store (bk s')) (lmt s') as"
    and "countsOK (store (bk s')) (lmt s') as"
    and "shares (taker s') = shares (taker s) - getShares (store (bk s) ! a)"
    and "0 \<le>s shares (taker s')"
proof -
  let ?st = "store (bk s)"
  let ?m = "getShares (?st ! a)"
  let ?t = "shares (taker s)"
  from wf have hd: "headOrder (lmt s) = Some a" and a: "a < length ?st"
    and rest: "fifo ?st (getNextOrder (?st ! a)) as"
    and pos: "0 <s ?m" and posr: "\<forall>b \<in> set as. 0 <s getShares (?st ! b)"
    and len: "Suc (length as) < 2 ^ 31"
    and tl: "tailOrder (lmt s) = Some (last (a # as))"
    by (simp_all add: wfQueue_def)
  from nxt hd have s': "s' = fillBody wavg oid a s"
    by (simp add: s'_def fillStep_Some)
  have ev: "stdMin ?m ?t = ?m" using full by (rule stdMin_full)
  from cnt have sz: "unat (limitSize (lmt s)) = Suc (length as)"
    and vol: "totalVolume (lmt s) = ?m + sum_list (map (\<lambda>b. getShares (?st ! b)) as)"
    by (simp_all add: countsOK_def)
  have fresh: "a \<notin> set as" using rest by (rule fifo_head_fresh)
  have same: "store (bk s') ! b = ?st ! b" if "b \<in> set as" for b
  proof -
    from that fresh have "b \<noteq> a" by auto
    then show ?thesis by (simp add: s' fillBody_other)
  qed
  show "nxtOrder s' = headOrder (lmt s')"
    by (simp add: s' fillBody_nxt fillBody_head ev)
  show "wfQueue (store (bk s')) (lmt s') as"
    unfolding wfQueue_def
  proof (intro conjI ballI)
    show "fifo (store (bk s')) (headOrder (lmt s')) as"
      using rest by (simp add: s' fifo_fillBody fillBody_head ev)
    show "as \<noteq> [] \<longrightarrow> tailOrder (lmt s') = Some (last as)"
      using tl by (simp add: s' fillBody_lim)
    show "length as < 2 ^ 31" using len by simp
    fix b assume "b \<in> set as"
    then show "0 <s getShares (store (bk s') ! b)"
      using posr same by simp
  qed
  have sum: "sum_list (map (\<lambda>b. getShares (store (bk s') ! b)) as) =
             sum_list (map (\<lambda>b. getShares (?st ! b)) as)"
    using same by (simp cong: map_cong)
  have "unat (limitSize (lmt s')) = length as"
    using size_dec [OF sz len] by (simp add: s' fillBody_lim ev)
  moreover have "totalVolume (lmt s') = sum_list (map (\<lambda>b. getShares (?st ! b)) as)"
    using vol by (simp add: s' fillBody_lim ev)
  ultimately show "countsOK (store (bk s')) (lmt s') as"
    using sum by (simp add: countsOK_def)
  show "shares (taker s') = ?t - ?m"
    by (simp add: s' fillBody_taker ev)
  then show "0 \<le>s shares (taker s')"
    using pos_sub_nonneg [OF pos full] by simp
qed

lemma step_part:
  fixes wavg :: "32 word \<Rightarrow> 'p \<Rightarrow> 32 word \<Rightarrow> 32 word \<Rightarrow> 32 word \<Rightarrow> 'p"
    and oid :: "64 word" and s :: "'p fill"
  assumes nxt: "nxtOrder s = headOrder (lmt s)"
    and wf: "wfQueue (store (bk s)) (lmt s) (a # as)"
    and cnt: "countsOK (store (bk s)) (lmt s) (a # as)"
    and tpos: "0 <s shares (taker s)"
    and part: "shares (taker s) <s getShares (store (bk s) ! a)"
  defines "s' \<equiv> fillStep wavg oid s"
  shows "nxtOrder s' = headOrder (lmt s')"
    and "wfQueue (store (bk s')) (lmt s') (a # as)"
    and "countsOK (store (bk s')) (lmt s') (a # as)"
    and "shares (taker s') = 0"
    and "getShares (store (bk s') ! a) = getShares (store (bk s) ! a) - shares (taker s)"
proof -
  let ?st = "store (bk s)"
  let ?m = "getShares (?st ! a)"
  let ?t = "shares (taker s)"
  from wf have hd: "headOrder (lmt s) = Some a" and a: "a < length ?st"
    and rest: "fifo ?st (getNextOrder (?st ! a)) as"
    and posr: "\<forall>b \<in> set as. 0 <s getShares (?st ! b)"
    and len: "Suc (length as) < 2 ^ 31"
    and tl: "tailOrder (lmt s) = Some (last (a # as))"
    by (simp_all add: wfQueue_def)
  from nxt hd have s': "s' = fillBody wavg oid a s"
    by (simp add: s'_def fillStep_Some)
  have ev: "stdMin ?m ?t = ?t" using part by (rule stdMin_part)
  have nle: "\<not> ?m \<le> ?t" using tpos part by (rule pos_sless_unsigned)
  from cnt have sz: "unat (limitSize (lmt s)) = Suc (length as)"
    and vol: "totalVolume (lmt s) = ?m + sum_list (map (\<lambda>b. getShares (?st ! b)) as)"
    by (simp_all add: countsOK_def)
  have fresh: "a \<notin> set as" using rest by (rule fifo_head_fresh)
  have same: "store (bk s') ! b = ?st ! b" if "b \<in> set as" for b
  proof -
    from that fresh have "b \<noteq> a" by auto
    then show ?thesis by (simp add: s' fillBody_other)
  qed
  show sh: "getShares (store (bk s') ! a) = ?m - ?t"
    using a nle by (simp add: s' fillBody_shares ev)
  show "nxtOrder s' = headOrder (lmt s')"
    using nxt nle by (simp add: s' fillBody_nxt fillBody_head ev)
  have fifo': "fifo (store (bk s')) (headOrder (lmt s')) (a # as)"
    using wf nle unfolding s' fifo_fillBody by (simp add: wfQueue_def fillBody_head ev)
  show "wfQueue (store (bk s')) (lmt s') (a # as)"
    unfolding wfQueue_def
  proof (intro conjI ballI)
    show "fifo (store (bk s')) (headOrder (lmt s')) (a # as)" by (rule fifo')
    show "a # as \<noteq> [] \<longrightarrow> tailOrder (lmt s') = Some (last (a # as))"
      using tl by (simp add: s' fillBody_lim)
    show "length (a # as) < 2 ^ 31" using len by simp
    fix b assume "b \<in> set (a # as)"
    then show "0 <s getShares (store (bk s') ! b)"
      using posr same sh pos_sub_pos [OF tpos part] by auto
  qed
  have sum: "sum_list (map (\<lambda>b. getShares (store (bk s') ! b)) as) =
             sum_list (map (\<lambda>b. getShares (?st ! b)) as)"
    using same by (simp cong: map_cong)
  have "unat (limitSize (lmt s')) = Suc (length as)"
    using sz nle by (simp add: s' fillBody_lim ev)
  moreover have "totalVolume (lmt s') =
      (?m - ?t) + sum_list (map (\<lambda>b. getShares (?st ! b)) as)"
    using vol by (simp add: s' fillBody_lim ev)
  ultimately show "countsOK (store (bk s')) (lmt s') (a # as)"
    using sum sh by (simp add: countsOK_def)
  show "shares (taker s') = 0"
    using nle by (simp add: s' fillBody_taker ev)
qed



subsection \<open>The loop invariant\<close>

lemma fillBody_ids:
  "map getOrderId (store (bk (fillBody wavg oid a s))) = map getOrderId (store (bk s))"
  "map getClientId (store (bk (fillBody wavg oid a s))) = map getClientId (store (bk s))"
  by (rule nth_equalityI; simp add: fillBody_length fillBody_links)+

lemma map_nth_eq:
  "map f xs = map g ys \<Longrightarrow> a < length xs \<Longrightarrow> f (xs ! a) = g (ys ! a)"
  by (metis length_map nth_map)

lemma nonneg_nonzero_pos:
  fixes w :: "32 word"
  assumes "0 \<le>s w" "w \<noteq> 0"
  shows "0 <s w"
proof -
  from assms(2) have "sint w \<noteq> 0" by (simp add: signed_eq_0_iff)
  with assms(1) show ?thesis by (simp add: word_sle_eq word_sless_alt)
qed

lemma runInv_init:
  assumes "nxtOrder s0 = headOrder (lmt s0)"
    and "wfQueue (store (bk s0)) (lmt s0) as0"
    and "countsOK (store (bk s0)) (lmt s0) as0"
    and "0 \<le>s shares (taker s0)"
  shows "runInv s0 as0 0 [] s0"
  using assms by (simp add: runInv_def)

lemma runInv_cond:
  assumes inv: "runInv s0 as0 j new s" and c: "fillCond s"
  shows "j < length as0" and "length new = j" and "0 <s shares (taker s)"
    and "drop j as0 = as0 ! j # drop (Suc j) as0"
    and "nxtOrder s = Some (as0 ! j)" and "as0 ! j < length (store (bk s))"
    and "validNxt s"
proof -
  from c have nz: "shares (taker s) \<noteq> 0" and sz: "limitSize (lmt s) \<noteq> 0"
    by (simp_all add: fillCond_def)
  from inv have "unat (limitSize (lmt s)) = length (drop j as0)"
    by (simp add: runInv_def countsOK_def)
  with sz have "length (drop j as0) \<noteq> 0" by (metis unat_eq_0)
  then show j: "j < length as0" by simp
  from inv nz show "length new = j" by (auto simp: runInv_def)
  from inv have "0 \<le>s shares (taker s)" by (simp add: runInv_def)
  then show "0 <s shares (taker s)" using nz by (rule nonneg_nonzero_pos)
  from j show d: "drop j as0 = as0 ! j # drop (Suc j) as0"
    by (simp add: Cons_nth_drop_Suc)
  from inv have "fifo (store (bk s)) (nxtOrder s) (drop j as0)"
    by (simp add: runInv_def wfQueue_def)
  with d show n: "nxtOrder s = Some (as0 ! j)" and b: "as0 ! j < length (store (bk s))"
    by simp_all
  from n b show "validNxt s" by (simp add: validNxt_def)
qed

lemma runInv_full:
  fixes wavg :: "32 word \<Rightarrow> 'p \<Rightarrow> 32 word \<Rightarrow> 32 word \<Rightarrow> 32 word \<Rightarrow> 'p"
  assumes inv: "runInv s0 as0 j new s" and c: "fillCond s"
    and full: "getShares (store (bk s) ! (as0 ! j)) \<le>s shares (taker s)"
  shows "\<exists>e. runInv s0 as0 (Suc j) (new @ [e]) (fillStep wavg oid s)"
proof -
  let ?a = "as0 ! j"
  let ?s' = "fillStep wavg oid s"
  note cs = runInv_cond [OF inv c]
  from inv have nxt: "nxtOrder s = headOrder (lmt s)"
    and wf: "wfQueue (store (bk s)) (lmt s) (?a # drop (Suc j) as0)"
    and cnt: "countsOK (store (bk s)) (lmt s) (?a # drop (Suc j) as0)"
    by (simp_all add: runInv_def cs(4) [symmetric])
  note st = step_full [OF nxt wf cnt full, of wavg oid]
  have s': "?s' = fillBody wavg oid ?a s" using cs(5) by (rule fillStep_Some)
  have ev: "stdMin (getShares (store (bk s) ! ?a)) (shares (taker s)) = getShares (store (bk s) ! ?a)"
    using full by (rule stdMin_full)
  obtain e where e: "executionQueue (bk ?s') = executionQueue (bk s) @ [e]"
    and eid: "makerOrderId e = getOrderId (store (bk s) ! ?a)"
    and ety: "makerExecType e = FullFill"
    using fillBody_execution [of wavg oid ?a s] unfolding s' ev by auto
  have len: "length (store (bk s)) = length (store (bk s0))"
    using inv by (metis runInv_def length_map)
  have id0: "getOrderId (store (bk s) ! ?a) = getOrderId (store (bk s0) ! ?a)"
    using inv cs(6) by (auto simp: runInv_def intro: map_nth_eq)
  have ids: "map makerOrderId (new @ [e]) =
      map (\<lambda>a. getOrderId (store (bk s0) ! a)) (take (length (new @ [e])) as0)"
    using inv cs(1,2) eid id0 by (simp add: runInv_def take_Suc_conv_app_nth)
  have tys: "map makerExecType (new @ [e]) =
      replicate (Suc j) FullFill @ replicate (length (new @ [e]) - Suc j) PartialFill"
    using inv cs(2) ety by (simp add: runInv_def replicate_append_same)
  have "runInv s0 as0 (Suc j) (new @ [e]) ?s'"
    unfolding runInv_def
  proof (intro conjI)
    show "Suc j \<le> length as0" using cs(1) by simp
    show "nxtOrder ?s' = headOrder (lmt ?s')" by (rule st(1))
    show "wfQueue (store (bk ?s')) (lmt ?s') (drop (Suc j) as0)" by (rule st(2))
    show "countsOK (store (bk ?s')) (lmt ?s') (drop (Suc j) as0)" by (rule st(3))
    show "0 \<le>s shares (taker ?s')" by (rule st(5))
    show "executionQueue (bk ?s') = executionQueue (bk s0) @ new @ [e]"
      using inv e by (simp add: runInv_def)
    show "length (new @ [e]) = Suc j \<or>
          length (new @ [e]) = Suc (Suc j) \<and> Suc j < length as0 \<and> shares (taker ?s') = 0"
      using cs(2) by simp
    show "map makerOrderId (new @ [e]) =
      map (\<lambda>a. getOrderId (store (bk s0) ! a)) (take (length (new @ [e])) as0)"
      by (rule ids)
    show "map makerExecType (new @ [e]) =
      replicate (Suc j) FullFill @ replicate (length (new @ [e]) - Suc j) PartialFill"
      by (rule tys)
    show "allOrders (bk ?s') = allOrders (bk s0)"
      using inv by (simp add: s' fillBody_allOrders runInv_def)
    show "map getOrderId (store (bk ?s')) = map getOrderId (store (bk s0))"
      using inv by (simp add: s' fillBody_ids runInv_def)
    show "map getClientId (store (bk ?s')) = map getClientId (store (bk s0))"
      using inv by (simp add: s' fillBody_ids runInv_def)
    show "clientId (taker ?s') = clientId (taker s0)"
      using inv by (simp add: s' fillBody_taker runInv_def)
  qed
  then show ?thesis ..
qed

lemma runInv_part:
  fixes wavg :: "32 word \<Rightarrow> 'p \<Rightarrow> 32 word \<Rightarrow> 32 word \<Rightarrow> 32 word \<Rightarrow> 'p"
  assumes inv: "runInv s0 as0 j new s" and c: "fillCond s"
    and part: "shares (taker s) <s getShares (store (bk s) ! (as0 ! j))"
  shows "\<exists>e. runInv s0 as0 j (new @ [e]) (fillStep wavg oid s)"
    and "shares (taker (fillStep wavg oid s)) = 0"
proof -
  let ?a = "as0 ! j"
  let ?s' = "fillStep wavg oid s"
  note cs = runInv_cond [OF inv c]
  from inv have nxt: "nxtOrder s = headOrder (lmt s)"
    and wf: "wfQueue (store (bk s)) (lmt s) (?a # drop (Suc j) as0)"
    and cnt: "countsOK (store (bk s)) (lmt s) (?a # drop (Suc j) as0)"
    by (simp_all add: runInv_def cs(4) [symmetric])
  note st = step_part [OF nxt wf cnt cs(3) part, of wavg oid]
  show z: "shares (taker ?s') = 0" by (rule st(4))
  have s': "?s' = fillBody wavg oid ?a s" using cs(5) by (rule fillStep_Some)
  have ev: "stdMin (getShares (store (bk s) ! ?a)) (shares (taker s)) = shares (taker s)"
    using part by (rule stdMin_part)
  have ne: "shares (taker s) \<noteq> getShares (store (bk s) ! ?a)"
    using part by (auto simp: word_sless_alt)
  obtain e where e: "executionQueue (bk ?s') = executionQueue (bk s) @ [e]"
    and eid: "makerOrderId e = getOrderId (store (bk s) ! ?a)"
    and ety: "makerExecType e = PartialFill"
    using fillBody_execution [of wavg oid ?a s] ne unfolding s' ev by auto
  have id0: "getOrderId (store (bk s) ! ?a) = getOrderId (store (bk s0) ! ?a)"
    using inv cs(6) by (auto simp: runInv_def intro: map_nth_eq)
  have ids: "map makerOrderId (new @ [e]) =
      map (\<lambda>a. getOrderId (store (bk s0) ! a)) (take (length (new @ [e])) as0)"
    using inv cs(1,2) eid id0 by (simp add: runInv_def take_Suc_conv_app_nth)
  have tys: "map makerExecType (new @ [e]) =
      replicate j FullFill @ replicate (length (new @ [e]) - j) PartialFill"
    using inv cs(2) ety by (simp add: runInv_def)
  have "runInv s0 as0 j (new @ [e]) ?s'"
    unfolding runInv_def
  proof (intro conjI)
    show "j \<le> length as0" using cs(1) by simp
    show "nxtOrder ?s' = headOrder (lmt ?s')" by (rule st(1))
    show "wfQueue (store (bk ?s')) (lmt ?s') (drop j as0)"
      using st(2) by (simp add: cs(4) [symmetric])
    show "countsOK (store (bk ?s')) (lmt ?s') (drop j as0)"
      using st(3) by (simp add: cs(4) [symmetric])
    show "0 \<le>s shares (taker ?s')" by (simp add: z)
    show "executionQueue (bk ?s') = executionQueue (bk s0) @ new @ [e]"
      using inv e by (simp add: runInv_def)
    show "length (new @ [e]) = j \<or>
          length (new @ [e]) = Suc j \<and> j < length as0 \<and> shares (taker ?s') = 0"
      using cs(1,2) z by simp
    show "map makerOrderId (new @ [e]) =
      map (\<lambda>a. getOrderId (store (bk s0) ! a)) (take (length (new @ [e])) as0)"
      by (rule ids)
    show "map makerExecType (new @ [e]) =
      replicate j FullFill @ replicate (length (new @ [e]) - j) PartialFill"
      by (rule tys)
    show "allOrders (bk ?s') = allOrders (bk s0)"
      using inv by (simp add: s' fillBody_allOrders runInv_def)
    show "map getOrderId (store (bk ?s')) = map getOrderId (store (bk s0))"
      using inv by (simp add: s' fillBody_ids runInv_def)
    show "map getClientId (store (bk ?s')) = map getClientId (store (bk s0))"
      using inv by (simp add: s' fillBody_ids runInv_def)
    show "clientId (taker ?s') = clientId (taker s0)"
      using inv by (simp add: s' fillBody_taker runInv_def)
  qed
  then show "\<exists>e. runInv s0 as0 j (new @ [e]) ?s'" ..
qed



lemma fillLoop_run:
  fixes wavg :: "32 word \<Rightarrow> 'p \<Rightarrow> 32 word \<Rightarrow> 32 word \<Rightarrow> 32 word \<Rightarrow> 'p"
  assumes init: "runInv s0 as0 0 [] s0"
  shows "\<exists>r j new. fillLoop wavg oid s0 = Some r \<and> runInv s0 as0 j new (stateOf r) \<and>
           (case r of Returns s' \<Rightarrow> \<not> fillCond s'
            | Throws e s' \<Rightarrow> e = SelfTradeRejected \<and> fillCond s' \<and> selfTrade s')"
proof -
  let ?I = "\<lambda>n s. \<exists>j new. runInv s0 as0 j new s \<and>
              n = 2 * (length as0 - j) + (if shares (taker s) = 0 then 0 else 1)"
  have step: "validNxt s \<and> (\<not> selfTrade s \<longrightarrow> (\<exists>n'<n. ?I n' (fillStep wavg oid s)))"
    if I: "?I n s" and c: "fillCond s" for n s
  proof -
    from I obtain j new where inv: "runInv s0 as0 j new s"
      and n: "n = 2 * (length as0 - j) + (if shares (taker s) = 0 then 0 else 1)"
      by blast
    note cs = runInv_cond [OF inv c]
    from c have nz: "shares (taker s) \<noteq> 0" by (simp add: fillCond_def)
    let ?s' = "fillStep wavg oid s"
    have "\<exists>n'<n. ?I n' ?s'"
    proof (cases "getShares (store (bk s) ! (as0 ! j)) \<le>s shares (taker s)")
      case True
      from runInv_full [OF inv c True, of wavg oid]
      obtain e where "runInv s0 as0 (Suc j) (new @ [e]) ?s'" ..
      moreover have "2 * (length as0 - Suc j) + (if shares (taker ?s') = 0 then 0 else 1) < n"
      proof -
        have "2 * (length as0 - Suc j) + 1 < 2 * (length as0 - j) + 1"
          using cs(1) by arith
        then show ?thesis using nz n by simp
      qed
      ultimately show ?thesis by blast
    next
      case False
      then have part: "shares (taker s) <s getShares (store (bk s) ! (as0 ! j))"
        using sle_or_sless by blast
      from runInv_part [OF inv c part, of wavg oid]
      obtain e where "runInv s0 as0 j (new @ [e]) ?s'" and "shares (taker ?s') = 0"
        by blast
      moreover have "2 * (length as0 - j) + (0::nat) < n"
        using nz n by simp
      ultimately show ?thesis by force
    qed
    with cs(7) show ?thesis by simp
  qed
  have start: "?I (2 * length as0 + (if shares (taker s0) = 0 then 0 else 1)) s0"
    using init by force
  have "\<exists>r n'. fillLoop wavg oid s0 = Some r \<and> ?I n' (stateOf r) \<and>
           (case r of Returns s' \<Rightarrow> \<not> fillCond s'
            | Throws e s' \<Rightarrow> e = SelfTradeRejected \<and> fillCond s' \<and> selfTrade s')"
    by (rule fillLoop_rule [where I = ?I, OF _ start]) (rule step)
  then show ?thesis by blast
qed

lemma runInv_stopped:
  assumes inv: "runInv s0 as0 j new s" and stop: "\<not> fillCond s"
  shows "shares (taker s) = 0 \<or> j = length as0"
proof (cases "shares (taker s) = 0")
  case False
  from inv have f: "fifo (store (bk s)) (nxtOrder s) (drop j as0)"
    and sz: "unat (limitSize (lmt s)) = length (drop j as0)" and j: "j \<le> length as0"
    by (simp_all add: runInv_def wfQueue_def countsOK_def)
  from stop False have "nxtOrder s = None \<or> limitSize (lmt s) = 0"
    by (simp add: fillCond_def)
  then have "drop j as0 = []"
  proof
    assume "nxtOrder s = None"
    with f show ?thesis by (cases "drop j as0") simp_all
  next
    assume "limitSize (lmt s) = 0"
    with sz show ?thesis by simp
  qed
  with j show ?thesis by simp
qed simp

lemma runInv_head_None:
  assumes inv: "runInv s0 as0 j new s"
  shows "headOrder (lmt s) = None \<longleftrightarrow> j = length as0"
proof -
  from inv have f: "fifo (store (bk s)) (headOrder (lmt s)) (drop j as0)"
    and j: "j \<le> length as0"
    by (simp_all add: runInv_def wfQueue_def)
  show ?thesis
  proof (cases "drop j as0")
    case Nil
    with f j show ?thesis by simp
  next
    case (Cons a list)
    with f j show ?thesis by auto
  qed
qed

lemma fullfill_count:
  assumes "map makerExecType new = replicate j FullFill @ replicate k PartialFill"
  shows "length (filter (\<lambda>e. makerExecType e = FullFill) new) = j"
proof -
  have "length (filter (\<lambda>e. makerExecType e = FullFill) new) =
        length (filter (\<lambda>t. t = FullFill) (map makerExecType new))"
    by (simp add: filter_map comp_def)
  also have "\<dots> = j" unfolding assms by simp
  finally show ?thesis .
qed

subsection \<open>Iterations and the execution queue\<close>

lemma stdMin_cases: "stdMin m t = m \<or> stdMin m t = t"
  by (simp add: stdMin_def)

lemma stdMin_not_le: "\<not> m \<le> stdMin m t \<Longrightarrow> stdMin m t = t"
  using stdMin_cases [of m t] by auto

lemma sint_stdMin: "sint (stdMin m t) = min (sint m) (sint t)"
  by (auto simp: stdMin_def word_sless_alt min_def)


lemma fillStep_queue_grows:
  "validNxt s \<Longrightarrow> \<exists>e. executionQueue (bk (fillStep wavg oid s)) = executionQueue (bk s) @ [e]"
  using fillBody_execution [of wavg oid "the (nxtOrder s)" s]
  by (auto simp: fillStep_def)

lemma iterate_queue:
  assumes "\<forall>i<n. validNxt ((fillStep wavg oid ^^ i) s)"
  shows "\<exists>new. executionQueue (bk ((fillStep wavg oid ^^ n) s)) = executionQueue (bk s) @ new \<and>
           length new = n"
  using assms
proof (induction n)
  case 0
  then show ?case by simp
next
  case (Suc n)
  then obtain new where new: "executionQueue (bk ((fillStep wavg oid ^^ n) s)) = executionQueue (bk s) @ new"
    "length new = n" by auto
  from Suc.prems have "validNxt ((fillStep wavg oid ^^ n) s)" by simp
  from fillStep_queue_grows [OF this, of wavg oid] obtain e where
    "executionQueue (bk ((fillStep wavg oid ^^ Suc n) s)) =
       executionQueue (bk ((fillStep wavg oid ^^ n) s)) @ [e]" by auto
  with new have "executionQueue (bk ((fillStep wavg oid ^^ Suc n) s)) = executionQueue (bk s) @ (new @ [e])
     \<and> length (new @ [e]) = Suc n" by simp
  then show ?case by blast
qed

lemma fillLoop_iterate:
  assumes "\<forall>i<n. fillCond ((fillStep wavg oid ^^ i) s) \<and> validNxt ((fillStep wavg oid ^^ i) s) \<and>
             \<not> selfTrade ((fillStep wavg oid ^^ i) s)"
  shows "fillLoop wavg oid s = fillLoop wavg oid ((fillStep wavg oid ^^ n) s)"
  using assms
proof (induction n)
  case 0
  then show ?case by simp
next
  case (Suc n)
  then have "fillLoop wavg oid s = fillLoop wavg oid ((fillStep wavg oid ^^ n) s)" by simp
  also from Suc.prems have "fillCond ((fillStep wavg oid ^^ n) s)"
    "validNxt ((fillStep wavg oid ^^ n) s)" "\<not> selfTrade ((fillStep wavg oid ^^ n) s)"
    by simp_all
  then have "fillLoop wavg oid ((fillStep wavg oid ^^ n) s) =
             fillLoop wavg oid (fillStep wavg oid ((fillStep wavg oid ^^ n) s))"
    by (subst fillLoop.simps) simp
  finally show ?case by simp
qed

lemmas run_defs = processFill_def fillCond_def validNxt_def selfTrade_def fillStep_def
  fillBody_def logExecution_def Let_def getNextExecutionId_def decreaseSize_def
  addExecutionToQueue_def mkExecution_def getSymbol_def wavgRat_def stdMin_def
  intent_def newOrder_def word_sless_alt

subsection \<open>addOrderToLimit on a well-formed Limit\<close>

lemma fifo_snoc:
  assumes "fifo st p as" and "as \<noteq> []" and "length st' = Suc (length st)"
    and "\<And>b. b \<in> set as \<Longrightarrow> b \<noteq> last as \<Longrightarrow> getNextOrder (st' ! b) = getNextOrder (st ! b)"
    and "getNextOrder (st' ! last as) = Some (length st)"
    and "getNextOrder (st' ! length st) = None"
  shows "fifo st' p (as @ [length st])"
  using assms
proof (induction as arbitrary: p)
  case Nil
  then show ?case by simp
next
  case (Cons a as)
  show ?case
  proof (cases "as = []")
    case True
    with Cons.prems show ?thesis by simp
  next
    case False
    from Cons.prems(1) have p: "p = Some a" "a < length st"
      and rest: "fifo st (getNextOrder (st ! a)) as" by simp_all
    from rest have "a \<notin> set as" by (rule fifo_head_fresh)
    with False have "a \<noteq> last (a # as)" by auto
    with Cons.prems(4) have nx: "getNextOrder (st' ! a) = getNextOrder (st ! a)" by simp
    have "fifo st' (getNextOrder (st ! a)) (as @ [length st])"
    proof (rule Cons.IH [OF rest False Cons.prems(3)])
      fix b assume "b \<in> set as" "b \<noteq> last as"
      with False Cons.prems(4) [of b] show "getNextOrder (st' ! b) = getNextOrder (st ! b)"
        by simp
    next
      from False Cons.prems(5) show "getNextOrder (st' ! last as) = Some (length st)" by simp
    next
      from Cons.prems(6) show "getNextOrder (st' ! length st) = None" .
    qed
    with p nx Cons.prems(3) show ?thesis by simp
  qed
qed

lemma addOrderToLimit_first:
  assumes "headOrder L = None"
  shows "addOrderToLimit L od book oid =
     Inr (L\<lparr>totalVolume := totalVolume L + shares od, limitSize := limitSize L + 1,
             headOrder := Some (length (store book)), tailOrder := Some (length (store book))\<rparr>,
          book\<lparr>store := store book @ [newOrder od oid],
               allOrders := (allOrders book)(oid \<mapsto> length (store book))\<rparr>)"
  using assms by (simp add: addOrderToLimit_def addOrderToAllOrders_def Let_def newOrder_def)

lemma addOrderToLimit_next:
  assumes "headOrder L = Some h" and "tailOrder L = Some t" and "t < length (store book)"
  shows "addOrderToLimit L od book oid =
     Inr (L\<lparr>totalVolume := totalVolume L + shares od, limitSize := limitSize L + 1,
             tailOrder := Some (length (store book))\<rparr>,
          book\<lparr>store := (store book)[t := (store book ! t)\<lparr>getNextOrder := Some (length (store book))\<rparr>]
                          @ [(newOrder od oid)\<lparr>getPrevOrder := Some t\<rparr>],
               allOrders := (allOrders book)(oid \<mapsto> length (store book))\<rparr>)"
  using assms
  by (simp add: addOrderToLimit_def addOrderToAllOrders_def Let_def newOrder_def
      nth_append list_update_append)

lemma addOrderToLimit_inv:
  assumes wf: "wfQueue (store book) L as" and cnt: "countsOK (store book) L as"
    and pos: "0 <s shares od" and len: "Suc (length as) < 2 ^ 31"
  shows "\<exists>L' book'. addOrderToLimit L od book oid = Inr (L', book') \<and>
           wfQueue (store book') L' (as @ [length (store book)]) \<and>
           countsOK (store book') L' (as @ [length (store book)])"
proof (cases "as = []")
  case True
  with wf have h: "headOrder L = None" by (simp add: wfQueue_def)
  let ?L' = "L\<lparr>totalVolume := totalVolume L + shares od, limitSize := limitSize L + 1,
             headOrder := Some (length (store book)), tailOrder := Some (length (store book))\<rparr>"
  let ?b' = "book\<lparr>store := store book @ [newOrder od oid],
               allOrders := (allOrders book)(oid \<mapsto> length (store book))\<rparr>"
  have "wfQueue (store ?b') ?L' (as @ [length (store book)])"
    using True pos by (simp add: wfQueue_def newOrder_def)
  moreover from cnt True have "unat (limitSize L) = 0" by (simp add: countsOK_def)
  then have "unat (limitSize L + 1) = Suc 0" by (rule size_inc) simp
  then have "countsOK (store ?b') ?L' (as @ [length (store book)])"
    using True cnt by (simp add: countsOK_def newOrder_def)
  ultimately show ?thesis using addOrderToLimit_first [OF h, of od book oid] by simp
next
  case False
  let ?st = "store book"
  let ?n = "length ?st"
  from wf False have f: "fifo ?st (headOrder L) as" and t: "tailOrder L = Some (last as)"
    and posq: "\<forall>a \<in> set as. 0 <s getShares (?st ! a)"
    by (simp_all add: wfQueue_def)
  from f False obtain h where h: "headOrder L = Some h" by (cases as) auto
  have bnd: "b < ?n" if "b \<in> set as" for b using f that by (rule fifo_bounds)
  from False have "last as \<in> set as" by simp
  then have tl: "last as < ?n" by (rule bnd)
  let ?st' = "?st[last as := (?st ! last as)\<lparr>getNextOrder := Some ?n\<rparr>]
                          @ [(newOrder od oid)\<lparr>getPrevOrder := Some (last as)\<rparr>]"
  let ?L' = "L\<lparr>totalVolume := totalVolume L + shares od, limitSize := limitSize L + 1,
             tailOrder := Some ?n\<rparr>"
  let ?b' = "book\<lparr>store := ?st', allOrders := (allOrders book)(oid \<mapsto> ?n)\<rparr>"
  have res: "addOrderToLimit L od book oid = Inr (?L', ?b')"
    using h t tl by (rule addOrderToLimit_next)
  have sh: "getShares (?st' ! b) = getShares (?st ! b)" if "b \<in> set as" for b
    using bnd [OF that] by (cases "b = last as") (simp_all add: nth_append)
  have fifo': "fifo ?st' (headOrder L) (as @ [?n])"
  proof (rule fifo_snoc [OF f False])
    show "length ?st' = Suc ?n" by simp
    show "getNextOrder (?st' ! b) = getNextOrder (?st ! b)"
      if "b \<in> set as" "b \<noteq> last as" for b
      using bnd [OF that(1)] that(2) by (simp add: nth_append)
    show "getNextOrder (?st' ! last as) = Some ?n" using tl by (simp add: nth_append)
    show "getNextOrder (?st' ! ?n) = None" by (simp add: nth_append newOrder_def)
  qed
  have newsh: "getShares (?st' ! ?n) = shares od" by (simp add: nth_append newOrder_def)
  have "wfQueue (store ?b') ?L' (as @ [?n])"
    unfolding wfQueue_def
  proof (intro conjI ballI)
    show "fifo (store ?b') (headOrder ?L') (as @ [?n])" using fifo' by simp
    show "as @ [?n] \<noteq> [] \<longrightarrow> tailOrder ?L' = Some (last (as @ [?n]))" by simp
    show "length (as @ [?n]) < 2 ^ 31" using len by simp
    fix b assume "b \<in> set (as @ [?n])"
    then have "b \<in> set as \<or> b = ?n" by auto
    then show "0 <s getShares (store ?b' ! b)"
    proof
      assume "b \<in> set as"
      with sh posq show ?thesis by simp
    next
      assume "b = ?n"
      with newsh pos show ?thesis by simp
    qed
  qed
  moreover have "countsOK (store ?b') ?L' (as @ [?n])"
  proof -
    from cnt have sz: "unat (limitSize L) = length as"
      and vol: "totalVolume L = sum_list (map (\<lambda>a. getShares (?st ! a)) as)"
      by (simp_all add: countsOK_def)
    have "sum_list (map (\<lambda>a. getShares (?st' ! a)) as) =
          sum_list (map (\<lambda>a. getShares (?st ! a)) as)"
      using sh by (simp cong: map_cong)
    moreover have "unat (limitSize L + 1) = Suc (length as)"
      using sz len by (rule size_inc)
    ultimately show ?thesis
      using vol newsh by (simp add: countsOK_def)
  qed
  ultimately show ?thesis using res by simp
qed

subsection \<open>The iterations of a run\<close>

lemma runs_iff:
  "runs wavg oid s n \<longleftrightarrow>
     (\<forall>i<n. fillCond ((fillStep wavg oid ^^ i) s) \<and> validNxt ((fillStep wavg oid ^^ i) s) \<and>
            \<not> selfTrade ((fillStep wavg oid ^^ i) s))"
  by (auto simp: runs_def)

lemma beforeFill_Suc:
  "beforeFill wavg L takerData orderId book (Suc i) =
     fillStep wavg orderId (beforeFill wavg L takerData orderId book i)"
  by (simp add: beforeFill_def)

lemma runs_Suc:
  assumes "fillCond s" "validNxt s" "\<not> selfTrade s" "runs wavg oid (fillStep wavg oid s) n"
  shows "runs wavg oid s (Suc n)"
  unfolding runs_iff
proof (intro allI impI)
  fix i assume "i < Suc n"
  show "fillCond ((fillStep wavg oid ^^ i) s) \<and> validNxt ((fillStep wavg oid ^^ i) s) \<and>
            \<not> selfTrade ((fillStep wavg oid ^^ i) s)"
  proof (cases i)
    case 0
    with assms show ?thesis by simp
  next
    case (Suc k)
    with \<open>i < Suc n\<close> have "k < n" by simp
    with assms(4) Suc show ?thesis by (simp add: runs_iff funpow_swap1)
  qed
qed

lemma fillLoop_iterates:
  fixes wavg :: "32 word \<Rightarrow> 'p \<Rightarrow> 32 word \<Rightarrow> 32 word \<Rightarrow> 32 word \<Rightarrow> 'p"
  assumes "fillLoop wavg oid s = Some r"
  shows "\<exists>n. stateOf r = (fillStep wavg oid ^^ n) s \<and> runs wavg oid s n"
proof (rule fillLoop.raw_induct
    [where P = "\<lambda>wavg oid s r. \<exists>n. stateOf r = (fillStep wavg oid ^^ n) s \<and> runs wavg oid s n",
     OF _ assms])
  fix loop :: "(32 word \<Rightarrow> 'p \<Rightarrow> 32 word \<Rightarrow> 32 word \<Rightarrow> 32 word \<Rightarrow> 'p) \<Rightarrow> 64 word \<Rightarrow> 'p fill \<Rightarrow>
      'p fill outcome option"
    and wavg oid s r
  assume IH: "\<And>w i t y. loop w i t = Some y \<Longrightarrow>
                \<exists>n. stateOf y = (fillStep w i ^^ n) t \<and> runs w i t n"
    and eq: "(if fillCond s then
                if \<not> validNxt s then Some (Throws BadPointer s)
                else if selfTrade s then Some (Throws SelfTradeRejected s)
                else loop wavg oid (fillStep wavg oid s)
              else Some (Returns s)) = Some r"
  show "\<exists>n. stateOf r = (fillStep wavg oid ^^ n) s \<and> runs wavg oid s n"
  proof (cases "fillCond s \<and> validNxt s \<and> \<not> selfTrade s")
    case True
    with eq have "loop wavg oid (fillStep wavg oid s) = Some r" by simp
    from IH [OF this] obtain n where n: "stateOf r = (fillStep wavg oid ^^ n) (fillStep wavg oid s)"
      "runs wavg oid (fillStep wavg oid s) n" by blast
    from n(1) have "stateOf r = (fillStep wavg oid ^^ Suc n) s" by (simp add: funpow_swap1)
    moreover from True n(2) have "runs wavg oid s (Suc n)" by (simp add: runs_Suc)
    ultimately show ?thesis by blast
  next
    case False
    with eq have "stateOf r = s" by (auto split: if_splits)
    then have "stateOf r = (fillStep wavg oid ^^ 0) s \<and> runs wavg oid s 0"
      by (simp add: runs_iff)
    then show ?thesis by blast
  qed
qed

lemma runs_valid: "runs wavg oid s n \<Longrightarrow> \<forall>i<n. validNxt ((fillStep wavg oid ^^ i) s)"
  by (simp add: runs_iff)

lemma runs_nth_execution:
  assumes r: "runs wavg oid s n"
    and q: "executionQueue (bk ((fillStep wavg oid ^^ n) s)) = executionQueue (bk s) @ new"
    and i: "i < n"
  shows "executionQueue (bk ((fillStep wavg oid ^^ Suc i) s)) =
           executionQueue (bk ((fillStep wavg oid ^^ i) s)) @ [new ! i]"
proof -
  let ?f = "fillStep wavg oid"
  from r i have "\<forall>k<i. validNxt ((?f ^^ k) s)" by (simp add: runs_iff)
  from iterate_queue [OF this] obtain pre where
    pre: "executionQueue (bk ((?f ^^ i) s)) = executionQueue (bk s) @ pre" "length pre = i"
    by blast
  from r i have "validNxt ((?f ^^ i) s)" by (simp add: runs_iff)
  from fillStep_queue_grows [OF this, of wavg oid] obtain e where
    e: "executionQueue (bk ((?f ^^ Suc i) s)) = executionQueue (bk ((?f ^^ i) s)) @ [e]"
    by auto
  have "\<forall>k<n - Suc i. validNxt ((?f ^^ k) ((?f ^^ Suc i) s))"
  proof (intro allI impI)
    fix k assume "k < n - Suc i"
    then have "k + Suc i < n" by simp
    with r have "validNxt ((?f ^^ (k + Suc i)) s)" unfolding runs_iff by blast
    then show "validNxt ((?f ^^ k) ((?f ^^ Suc i) s))" by (simp only: funpow_add o_apply)
  qed
  from iterate_queue [OF this] obtain post where
    "executionQueue (bk ((?f ^^ (n - Suc i)) ((?f ^^ Suc i) s))) =
       executionQueue (bk ((?f ^^ Suc i) s)) @ post" by blast
  moreover have "(?f ^^ (n - Suc i)) ((?f ^^ Suc i) s) = (?f ^^ n) s"
  proof -
    from i have "n = (n - Suc i) + Suc i" by simp
    then have "(?f ^^ n) s = (?f ^^ ((n - Suc i) + Suc i)) s" by simp
    also have "\<dots> = (?f ^^ (n - Suc i)) ((?f ^^ Suc i) s)" by (simp only: funpow_add o_apply)
    finally show ?thesis by simp
  qed
  ultimately have "executionQueue (bk ((?f ^^ n) s)) = executionQueue (bk s) @ pre @ [e] @ post"
    using e pre by simp
  with q have "new = pre @ [e] @ post" by simp
  with pre(2) have "new ! i = e" by (simp add: nth_append)
  with e show ?thesis by simp
qed

lemma runInv_iterate:
  fixes wavg :: "32 word \<Rightarrow> 'p \<Rightarrow> 32 word \<Rightarrow> 32 word \<Rightarrow> 32 word \<Rightarrow> 'p"
  assumes init: "runInv s0 as0 0 [] s0" and r: "runs wavg oid s0 k"
  shows "\<exists>j new. runInv s0 as0 j new ((fillStep wavg oid ^^ k) s0)"
  using r
proof (induction k)
  case 0
  with init show ?case by auto
next
  case (Suc k)
  let ?s = "(fillStep wavg oid ^^ k) s0"
  from Suc.prems have "runs wavg oid s0 k" by (simp add: runs_iff)
  with Suc.IH obtain j new where inv: "runInv s0 as0 j new ?s" by blast
  from Suc.prems have c: "fillCond ?s" by (simp add: runs_iff)
  show ?case
  proof (cases "getShares (store (bk ?s) ! (as0 ! j)) \<le>s shares (taker ?s)")
    case True
    from runInv_full [OF inv c True, of wavg oid] show ?thesis by auto
  next
    case False
    then have "shares (taker ?s) <s getShares (store (bk ?s) ! (as0 ! j))"
      using sle_or_sless by blast
    from runInv_part(1) [OF inv c this, of wavg oid] show ?thesis by auto
  qed
qed

subsection \<open>The running average prices\<close>

text \<open>
  In every iteration the two average prices are the results of the average-price
  expression on the cumulative quantity and the average before the fill, the executed
  volume, the maker's limit price and the cumulative quantity after the fill; the
  Execution carries the new averages and the new cumulative quantities, and the maker
  and the intent store them.
\<close>

lemma fill_average_operands:
  fixes wavg :: "32 word \<Rightarrow> 'p \<Rightarrow> 32 word \<Rightarrow> 32 word \<Rightarrow> 32 word \<Rightarrow> 'p"
  assumes nxt: "nxtOrder s = Some a" and a: "a < length (store (bk s))"
  shows "\<exists>e. executionQueue (bk (fillStep wavg orderId s)) = executionQueue (bk s) @ [e] \<and>
           makerCumQty e = getExecutedQuantity (store (bk s) ! a) + execSize e \<and>
           takerCumQty e = executedQuantity (taker s) + execSize e \<and>
           makerAvgPrice e =
             wavg (getExecutedQuantity (store (bk s) ! a)) (getAvgPrice (store (bk s) ! a))
                  (execSize e) (execPrice e) (makerCumQty e) \<and>
           takerAvgPrice e =
             wavg (executedQuantity (taker s)) (avgPrice (taker s))
                  (execSize e) (execPrice e) (takerCumQty e) \<and>
           getAvgPrice (store (bk (fillStep wavg orderId s)) ! a) = makerAvgPrice e \<and>
           getExecutedQuantity (store (bk (fillStep wavg orderId s)) ! a) = makerCumQty e \<and>
           avgPrice (taker (fillStep wavg orderId s)) = takerAvgPrice e \<and>
           executedQuantity (taker (fillStep wavg orderId s)) = takerCumQty e"
  using a by (simp add: fillStep_Some [OF nxt] fill_defs mkExecution_def)

text \<open>
  The divisors of the two expressions are the cumulative quantities \<open>makerCumQty\<close> and
  \<open>takerCumQty\<close> of the Execution. When the maker and the taker have positive shares
  and non-negative executed quantities, and the sums do not overflow, the executed
  volume is positive and both divisors are at least the executed volume.
\<close>

lemma sint_add_small:
  fixes x y :: "32 word"
  assumes "0 \<le> sint x" "0 \<le> sint y" "sint x + sint y < 2 ^ 31"
  shows "sint (x + y) = sint x + sint y"
proof -
  have "sint (x + y) = signed_take_bit 31 (sint x + sint y)"
    by (simp add: sint_word_ariths)
  also have "\<dots> = sint x + sint y"
    using assms by (intro signed_take_bit_int_eq_self) auto
  finally show ?thesis .
qed

lemma fill_divisors_positive:
  fixes wavg :: "32 word \<Rightarrow> 'p \<Rightarrow> 32 word \<Rightarrow> 32 word \<Rightarrow> 32 word \<Rightarrow> 'p"
  assumes nxt: "nxtOrder s = Some a"
    and m: "0 <s getShares (store (bk s) ! a)" and t: "0 <s shares (taker s)"
    and qm: "0 \<le>s getExecutedQuantity (store (bk s) ! a)"
    and qt: "0 \<le>s executedQuantity (taker s)"
    and om: "sint (getExecutedQuantity (store (bk s) ! a)) + sint (getShares (store (bk s) ! a)) < 2 ^ 31"
    and ot: "sint (executedQuantity (taker s)) + sint (shares (taker s)) < 2 ^ 31"
  shows "\<exists>e. executionQueue (bk (fillStep wavg orderId s)) = executionQueue (bk s) @ [e] \<and>
           0 <s execSize e \<and> execSize e \<le>s makerCumQty e \<and> execSize e \<le>s takerCumQty e"
proof -
  let ?m = "getShares (store (bk s) ! a)"
  let ?t = "shares (taker s)"
  let ?ev = "stdMin ?m ?t"
  from nxt have s': "fillStep wavg orderId s = fillBody wavg orderId a s"
    by (rule fillStep_Some)
  from fillBody_execution [of wavg orderId a s] obtain e where
    q: "executionQueue (bk (fillBody wavg orderId a s)) = executionQueue (bk s) @ [e]"
    and sz: "execSize e = ?ev"
    and cm: "makerCumQty e = getExecutedQuantity (store (bk s) ! a) + execSize e"
    and ct: "takerCumQty e = executedQuantity (taker s) + execSize e"
    by blast
  have ev: "0 < sint ?ev" "sint ?ev \<le> sint ?m" "sint ?ev \<le> sint ?t"
    using m t by (simp_all add: sint_stdMin word_sless_alt)
  have "sint (getExecutedQuantity (store (bk s) ! a) + ?ev) =
        sint (getExecutedQuantity (store (bk s) ! a)) + sint ?ev"
    using qm ev om by (intro sint_add_small) (simp_all add: word_sle_eq)
  moreover have "sint (executedQuantity (taker s) + ?ev) =
        sint (executedQuantity (taker s)) + sint ?ev"
    using qt ev ot by (intro sint_add_small) (simp_all add: word_sle_eq)
  ultimately have "0 <s execSize e \<and> execSize e \<le>s makerCumQty e \<and> execSize e \<le>s takerCumQty e"
    using ev qm qt by (simp add: sz cm ct word_sle_eq word_sless_alt)
  with q show ?thesis unfolding s' by blast
qed

subsection \<open>What a run matches\<close>

lemma matchInv_init: "matchInv s0 as0 0 [] s0"
  by (simp add: matchInv_def)

lemma matchInv_step_common:
  fixes wavg :: "32 word \<Rightarrow> 'p \<Rightarrow> 32 word \<Rightarrow> 32 word \<Rightarrow> 32 word \<Rightarrow> 'p"
  assumes inv: "runInv s0 as0 j new s" and m: "matchInv s0 as0 j new s"
    and c: "fillCond s" and ns: "\<not> selfTrade s"
  shows "getShares (store (bk s) ! (as0 ! j)) = getShares (store (bk s0) ! (as0 ! j))"
    and "map (\<lambda>a. getShares (store (bk (fillStep wavg oid s)) ! a)) (drop (Suc j) as0) =
         map (\<lambda>a. getShares (store (bk s0) ! a)) (drop (Suc j) as0)"
    and "\<forall>a \<in> set (take (Suc j) as0). getClientId (store (bk s0) ! a) \<noteq> clientId (taker s0)"
proof -
  let ?a = "as0 ! j"
  note cs = runInv_cond [OF inv c]
  have s': "fillStep wavg oid s = fillBody wavg oid ?a s" using cs(5) by (rule fillStep_Some)
  from m cs(2) have eq: "map (\<lambda>a. getShares (store (bk s) ! a)) (drop j as0) =
       map (\<lambda>a. getShares (store (bk s0) ! a)) (drop j as0)"
    by (simp add: matchInv_def)
  from eq show hd: "getShares (store (bk s) ! ?a) = getShares (store (bk s0) ! ?a)"
    unfolding cs(4) by simp
  from eq have tl: "map (\<lambda>a. getShares (store (bk s) ! a)) (drop (Suc j) as0) =
       map (\<lambda>a. getShares (store (bk s0) ! a)) (drop (Suc j) as0)"
    unfolding cs(4) by simp
  from inv have "fifo (store (bk s)) (nxtOrder s) (?a # drop (Suc j) as0)"
    by (simp add: runInv_def wfQueue_def cs(4) [symmetric])
  then have "fifo (store (bk s)) (getNextOrder (store (bk s) ! ?a)) (drop (Suc j) as0)"
    by simp
  then have fresh: "?a \<notin> set (drop (Suc j) as0)" by (rule fifo_head_fresh)
  have "map (\<lambda>a. getShares (store (bk (fillStep wavg oid s)) ! a)) (drop (Suc j) as0) =
        map (\<lambda>a. getShares (store (bk s) ! a)) (drop (Suc j) as0)"
  proof (rule map_cong [OF refl])
    fix b assume "b \<in> set (drop (Suc j) as0)"
    with fresh have "b \<noteq> ?a" by auto
    then show "getShares (store (bk (fillStep wavg oid s)) ! b) = getShares (store (bk s) ! b)"
      by (simp add: s' fillBody_other)
  qed
  with tl show "map (\<lambda>a. getShares (store (bk (fillStep wavg oid s)) ! a)) (drop (Suc j) as0) =
         map (\<lambda>a. getShares (store (bk s0) ! a)) (drop (Suc j) as0)" by simp
  from ns cs(5) have "clientId (taker s) \<noteq> getClientId (store (bk s) ! ?a)"
    by (simp add: selfTrade_def)
  moreover from inv cs(6) have "getClientId (store (bk s) ! ?a) = getClientId (store (bk s0) ! ?a)"
    by (auto simp: runInv_def intro: map_nth_eq)
  moreover from inv have "clientId (taker s) = clientId (taker s0)" by (simp add: runInv_def)
  ultimately have "getClientId (store (bk s0) ! ?a) \<noteq> clientId (taker s0)" by simp
  moreover from m cs(2) have "\<forall>a \<in> set (take j as0). getClientId (store (bk s0) ! a) \<noteq> clientId (taker s0)"
    by (simp add: matchInv_def)
  ultimately show "\<forall>a \<in> set (take (Suc j) as0). getClientId (store (bk s0) ! a) \<noteq> clientId (taker s0)"
    using cs(1) by (auto simp: take_Suc_conv_app_nth)
qed

lemma matchInv_full:
  fixes wavg :: "32 word \<Rightarrow> 'p \<Rightarrow> 32 word \<Rightarrow> 32 word \<Rightarrow> 32 word \<Rightarrow> 'p"
  assumes inv: "runInv s0 as0 j new s" and m: "matchInv s0 as0 j new s"
    and c: "fillCond s" and ns: "\<not> selfTrade s"
    and full: "getShares (store (bk s) ! (as0 ! j)) \<le>s shares (taker s)"
    and e: "executionQueue (bk (fillStep wavg oid s)) = executionQueue (bk s) @ [e]"
  shows "matchInv s0 as0 (Suc j) (new @ [e]) (fillStep wavg oid s)"
proof -
  let ?a = "as0 ! j"
  let ?m = "getShares (store (bk s) ! ?a)"
  note cs = runInv_cond [OF inv c]
  note cm = matchInv_step_common [OF inv m c ns]
  have s': "fillStep wavg oid s = fillBody wavg oid ?a s" using cs(5) by (rule fillStep_Some)
  have ev: "stdMin ?m (shares (taker s)) = ?m" using full by (rule stdMin_full)
  from fillBody_execution [of wavg oid ?a s] e have sz: "execSize e = ?m"
    unfolding s' ev by auto
  have sh: "shares (taker (fillStep wavg oid s)) = shares (taker s) - ?m"
    by (simp add: s' fillBody_taker ev)
  from m have b: "map execSize (take j new) = map (\<lambda>a. getShares (store (bk s0) ! a)) (take j as0)"
    and cons: "shares (taker s) + sum_list (map execSize new) = shares (taker s0)"
    by (simp_all add: matchInv_def)
  show ?thesis
    unfolding matchInv_def
  proof (intro conjI)
    show "map (\<lambda>a. getShares (store (bk (fillStep wavg oid s)) ! a)) (drop (length (new @ [e])) as0) =
       map (\<lambda>a. getShares (store (bk s0) ! a)) (drop (length (new @ [e])) as0)"
      using cm(2) cs(2) by simp
    show "map execSize (take (Suc j) (new @ [e])) =
          map (\<lambda>a. getShares (store (bk s0) ! a)) (take (Suc j) as0)"
      using b cs(1,2) sz cm(1) by (simp add: take_Suc_conv_app_nth)
    show "shares (taker (fillStep wavg oid s)) + sum_list (map execSize (new @ [e])) = shares (taker s0)"
      using cons sz sh by simp
    show "\<forall>a \<in> set (take (length (new @ [e])) as0).
            getClientId (store (bk s0) ! a) \<noteq> clientId (taker s0)"
      using cm(3) cs(2) by simp
  qed
qed

lemma matchInv_part:
  fixes wavg :: "32 word \<Rightarrow> 'p \<Rightarrow> 32 word \<Rightarrow> 32 word \<Rightarrow> 32 word \<Rightarrow> 'p"
  assumes inv: "runInv s0 as0 j new s" and m: "matchInv s0 as0 j new s"
    and c: "fillCond s" and ns: "\<not> selfTrade s"
    and part: "shares (taker s) <s getShares (store (bk s) ! (as0 ! j))"
    and e: "executionQueue (bk (fillStep wavg oid s)) = executionQueue (bk s) @ [e]"
  shows "matchInv s0 as0 j (new @ [e]) (fillStep wavg oid s)"
proof -
  let ?a = "as0 ! j"
  let ?m = "getShares (store (bk s) ! ?a)"
  note cs = runInv_cond [OF inv c]
  note cm = matchInv_step_common [OF inv m c ns]
  have s': "fillStep wavg oid s = fillBody wavg oid ?a s" using cs(5) by (rule fillStep_Some)
  have ev: "stdMin ?m (shares (taker s)) = shares (taker s)" using part by (rule stdMin_part)
  from fillBody_execution [of wavg oid ?a s] e have sz: "execSize e = shares (taker s)"
    unfolding s' ev by auto
  have sh: "shares (taker (fillStep wavg oid s)) = 0"
    using runInv_part(2) [OF inv c part] .
  from m have b: "map execSize (take j new) = map (\<lambda>a. getShares (store (bk s0) ! a)) (take j as0)"
    and cons: "shares (taker s) + sum_list (map execSize new) = shares (taker s0)"
    by (simp_all add: matchInv_def)
  show ?thesis
    unfolding matchInv_def
  proof (intro conjI)
    show "map (\<lambda>a. getShares (store (bk (fillStep wavg oid s)) ! a)) (drop (length (new @ [e])) as0) =
       map (\<lambda>a. getShares (store (bk s0) ! a)) (drop (length (new @ [e])) as0)"
      using cm(2) cs(2) by simp
    show "map execSize (take j (new @ [e])) =
          map (\<lambda>a. getShares (store (bk s0) ! a)) (take j as0)"
      using b cs(2) by simp
    show "shares (taker (fillStep wavg oid s)) + sum_list (map execSize (new @ [e])) = shares (taker s0)"
      using cons sz sh by (simp add: add.commute)
    show "\<forall>a \<in> set (take (length (new @ [e])) as0).
            getClientId (store (bk s0) ! a) \<noteq> clientId (taker s0)"
      using cm(3) cs(2) by simp
  qed
qed

lemma fillLoop_match:
  fixes wavg :: "32 word \<Rightarrow> 'p \<Rightarrow> 32 word \<Rightarrow> 32 word \<Rightarrow> 32 word \<Rightarrow> 'p"
  assumes init: "runInv s0 as0 0 [] s0"
  shows "\<exists>r j new. fillLoop wavg oid s0 = Some r \<and> runInv s0 as0 j new (stateOf r) \<and>
           matchInv s0 as0 j new (stateOf r) \<and>
           (case r of Returns s' \<Rightarrow> \<not> fillCond s'
            | Throws e s' \<Rightarrow> e = SelfTradeRejected \<and> fillCond s' \<and> selfTrade s')"
proof -
  define I :: "nat \<Rightarrow> 'p fill \<Rightarrow> bool" where
    "I = (\<lambda>n s. \<exists>j new. runInv s0 as0 j new s \<and> matchInv s0 as0 j new s \<and>
              n = 2 * (length as0 - j) + (if shares (taker s) = 0 then 0 else 1))"
  have step: "validNxt s \<and> (\<not> selfTrade s \<longrightarrow> (\<exists>n'<n. I n' (fillStep wavg oid s)))"
    if I: "I n s" and c: "fillCond s" for n s
  proof (intro conjI impI)
    from I obtain j new where inv: "runInv s0 as0 j new s" and m: "matchInv s0 as0 j new s"
      and n: "n = 2 * (length as0 - j) + (if shares (taker s) = 0 then 0 else 1)"
      unfolding I_def by blast
    note cs = runInv_cond [OF inv c]
    show "validNxt s" by (rule cs(7))
    from c have nz: "shares (taker s) \<noteq> 0" by (simp add: fillCond_def)
    from inv have q: "executionQueue (bk s) = executionQueue (bk s0) @ new"
      by (simp add: runInv_def)
    let ?s' = "fillStep wavg oid s"
    assume ns: "\<not> selfTrade s"
    show "\<exists>n'<n. I n' ?s'"
    proof (cases "getShares (store (bk s) ! (as0 ! j)) \<le>s shares (taker s)")
      case True
      from runInv_full [OF inv c True, of wavg oid]
      obtain e where r': "runInv s0 as0 (Suc j) (new @ [e]) ?s'" ..
      then have "executionQueue (bk ?s') = executionQueue (bk s) @ [e]"
        using q by (simp add: runInv_def)
      from matchInv_full [OF inv m c ns True this]
      have m': "matchInv s0 as0 (Suc j) (new @ [e]) ?s'" .
      have "2 * (length as0 - Suc j) + (if shares (taker ?s') = 0 then 0 else 1) < n"
      proof -
        have "2 * (length as0 - Suc j) + 1 < 2 * (length as0 - j) + 1"
          using cs(1) by arith
        then show ?thesis using nz n by simp
      qed
      with r' m' show ?thesis unfolding I_def by blast
    next
      case False
      then have part: "shares (taker s) <s getShares (store (bk s) ! (as0 ! j))"
        using sle_or_sless by blast
      from runInv_part [OF inv c part, of wavg oid]
      obtain e where r': "runInv s0 as0 j (new @ [e]) ?s'" and z: "shares (taker ?s') = 0"
        by blast
      from r' have "executionQueue (bk ?s') = executionQueue (bk s) @ [e]"
        using q by (simp add: runInv_def)
      from matchInv_part [OF inv m c ns part this]
      have m': "matchInv s0 as0 j (new @ [e]) ?s'" .
      have "2 * (length as0 - j) + (if shares (taker ?s') = 0 then 0 else 1) < n"
        using nz n z by simp
      with r' m' show ?thesis unfolding I_def by blast
    qed
  qed
  have start: "I (2 * length as0 + (if shares (taker s0) = 0 then 0 else 1)) s0"
    unfolding I_def using init matchInv_init [of s0 as0] by force
  have "\<exists>r n'. fillLoop wavg oid s0 = Some r \<and> I n' (stateOf r) \<and>
           (case r of Returns s' \<Rightarrow> \<not> fillCond s'
            | Throws e s' \<Rightarrow> e = SelfTradeRejected \<and> fillCond s' \<and> selfTrade s')"
    by (rule fillLoop_rule [where I = I, OF _ start]) (rule step)
  then show ?thesis unfolding I_def by blast
qed

section \<open>The claims of the specification\<close>

subsection \<open>Sample runs\<close>

text \<open>The sample books are what \<^verbatim>\<open>addOrderToLimit\<close> builds from an empty Limit.\<close>

lemma oneBid_built:
  "addOrderToLimit (newLimit 100) (intent 1 Buy 100 5) emptyBook 7 = Inr (oneBidLimit, oneBidBook)"
  by (simp add: addOrderToLimit_def newLimit_def emptyBook_def addOrderToAllOrders_def Let_def
      oneBidLimit_def oneBidBook_def newOrder_def intent_def)

lemma twoBids_built:
  "addOrderToLimit (newLimit 100) (intent 1 Buy 100 2) emptyBook 7 = Inr (L1, B1) \<Longrightarrow>
   addOrderToLimit L1 (intent 2 Buy 100 3) B1 8 = Inr (twoBidsLimit, twoBidsBook)"
  by (auto simp: addOrderToLimit_def newLimit_def emptyBook_def addOrderToAllOrders_def Let_def
      twoBidsLimit_def twoBidsBook_def newOrder_def intent_def)

lemma oneBid_run:
  "processFill wavgRat oneBidLimit (intent 2 Sell 100 5) 9 oneBidBook = Some (Returns oneBidFilled)"
  by (simp add: run_defs startFill_def fillLoop.simps oneBidLimit_def oneBidBook_def
      oneBidFilled_def)

lemma twoBids_run:
  "processFill wavgRat twoBidsLimit (intent 3 Sell 100 4) 9 twoBidsBook = Some (Returns twoBidsFilled)"
  by (simp add: run_defs startFill_def fillLoop.simps twoBidsLimit_def twoBidsBook_def
      twoBidsFilled_def)

lemma twoBids_rejected_run:
  "processFill wavgRat twoBidsLimit (intent 2 Sell 100 4) 9 twoBidsBook =
     Some (Throws SelfTradeRejected twoBidsRejected)"
  by (simp add: run_defs startFill_def fillLoop.simps twoBidsLimit_def twoBidsBook_def
      twoBidsRejected_def)

lemma twoBids_new:
  "executionQueue (bk (stateOf (Returns twoBidsFilled))) =
     executionQueue twoBidsBook @ executionQueue (bk twoBidsFilled)"
  by (simp add: twoBidsBook_def)

lemma twoBids_second: "Suc 0 < length (executionQueue (bk twoBidsFilled))"
  by (simp add: twoBidsFilled_def)

lemma twoBids_wf: "wfQueue (store twoBidsBook) twoBidsLimit [0, 1]"
  by (simp add: wfQueue_def twoBidsBook_def twoBidsLimit_def newOrder_def intent_def
      word_sless_alt)

lemma twoBids_counts: "countsOK (store twoBidsBook) twoBidsLimit [0, 1]"
  by (simp add: countsOK_def twoBidsBook_def twoBidsLimit_def newOrder_def intent_def)

lemma seller_pos: "0 <s shares (intent c Sell 100 4)"
  by (simp add: intent_def word_sless_alt)

text \<open>
  C1. Claim: the \<open>makerClientId\<close> of an Execution is the client of the resting maker
  order and its \<open>takerClientId\<close> the client of the incoming taker. \<^verbatim>\<open>logExecution\<close>
  passes \<^verbatim>\<open>takerData.clientId\<close> before \<^verbatim>\<open>makerOrder->getClientId()\<close>, whereas it passes
  every other pair maker first, as the constructor lists them. When client 2 sells
  into the resting bid of client 1 (order 7), the Execution against order 7 names
  client 2 as the maker's client and client 1 as the taker's. The lemma
  \<open>fillBody_execution\<close> shows the same for every fill.
\<close>

theorem logExecution_swaps_client_ids:
  "processFill wavgRat oneBidLimit (intent 2 Sell 100 5) 9 oneBidBook = Some (Returns oneBidFilled) \<and>
   getClientId (store oneBidBook ! 0) = 1 \<and>
   clientId (intent 2 Sell 100 5) = 2 \<and>
   map makerOrderId (executionQueue (bk oneBidFilled)) = [getOrderId (store oneBidBook ! 0)] \<and>
   map makerClientId (executionQueue (bk oneBidFilled)) = [2] \<and>
   map takerClientId (executionQueue (bk oneBidFilled)) = [1]"
  using oneBid_run
  by (simp add: oneBidBook_def oneBidFilled_def newOrder_def intent_def)

subsection \<open>A run of processFill on a well-formed Limit\<close>

lemma processFill_run:
  fixes wavg :: "32 word \<Rightarrow> 'p \<Rightarrow> 32 word \<Rightarrow> 32 word \<Rightarrow> 32 word \<Rightarrow> 'p"
  assumes wf: "wfQueue (store book) L as"
    and cnt: "countsOK (store book) L as"
    and pos: "0 <s shares takerData"
  shows "\<exists>r j new. processFill wavg L takerData orderId book = Some r \<and>
           runInv (startFill L takerData book) as j new (stateOf r) \<and>
           (case r of Returns s' \<Rightarrow> \<not> fillCond s'
            | Throws e s' \<Rightarrow> e = SelfTradeRejected \<and> fillCond s' \<and> selfTrade s')"
proof -
  have "0 \<le>s shares takerData" using pos by (simp add: word_sless_alt word_sle_eq)
  with wf cnt have "runInv (startFill L takerData book) as 0 [] (startFill L takerData book)"
    by (intro runInv_init) (simp_all add: startFill_def)
  from fillLoop_run [OF this, of wavg orderId] show ?thesis
    by (simp add: processFill_def)
qed

lemma processFill_iterates:
  fixes wavg :: "32 word \<Rightarrow> 'p \<Rightarrow> 32 word \<Rightarrow> 32 word \<Rightarrow> 32 word \<Rightarrow> 'p"
  assumes run: "processFill wavg L takerData orderId book = Some r"
    and new: "executionQueue (bk (stateOf r)) = executionQueue book @ new"
    and i: "i < length new"
  defines "s \<equiv> beforeFill wavg L takerData orderId book i"
  shows "\<exists>a. nxtOrder s = Some a \<and> a < length (store (bk s))"
    and "executionQueue (bk (fillStep wavg orderId s)) = executionQueue (bk s) @ [new ! i]"
proof -
  let ?f = "fillStep wavg orderId"
  let ?s0 = "startFill L takerData book"
  from run have "fillLoop wavg orderId ?s0 = Some r" by (simp add: processFill_def)
  from fillLoop_iterates [OF this] obtain n where
    n: "stateOf r = (?f ^^ n) ?s0" and r: "runs wavg orderId ?s0 n" by blast
  from iterate_queue [OF runs_valid [OF r]] obtain new' where
    "executionQueue (bk ((?f ^^ n) ?s0)) = executionQueue (bk ?s0) @ new'" "length new' = n"
    by blast
  with new n have len: "length new = n" by (simp add: startFill_def)
  from new n have q: "executionQueue (bk ((?f ^^ n) ?s0)) = executionQueue (bk ?s0) @ new"
    by (simp add: startFill_def)
  from i len have i': "i < n" by simp
  with r have "validNxt s" by (simp add: runs_iff s_def beforeFill_def)
  then show "\<exists>a. nxtOrder s = Some a \<and> a < length (store (bk s))"
    by (auto simp: validNxt_def split: option.splits)
  from runs_nth_execution [OF r q i']
  show "executionQueue (bk (?f s)) = executionQueue (bk s) @ [new ! i]"
    by (simp add: s_def beforeFill_def)
qed

lemma beforeFill_taker_positive:
  fixes wavg :: "32 word \<Rightarrow> 'p \<Rightarrow> 32 word \<Rightarrow> 32 word \<Rightarrow> 32 word \<Rightarrow> 'p"
  assumes wf: "wfQueue (store book) L as"
    and cnt: "countsOK (store book) L as"
    and pos: "0 <s shares takerData"
    and run: "processFill wavg L takerData orderId book = Some r"
    and new: "executionQueue (bk (stateOf r)) = executionQueue book @ new"
    and i: "i < length new"
  shows "0 <s shares (taker (beforeFill wavg L takerData orderId book i))"
proof -
  let ?f = "fillStep wavg orderId"
  let ?s0 = "startFill L takerData book"
  have "0 \<le>s shares takerData" using pos by (simp add: word_sless_alt word_sle_eq)
  with wf cnt have init: "runInv ?s0 as 0 [] ?s0"
    by (intro runInv_init) (simp_all add: startFill_def)
  from run have "fillLoop wavg orderId ?s0 = Some r" by (simp add: processFill_def)
  from fillLoop_iterates [OF this] obtain n where
    n: "stateOf r = (?f ^^ n) ?s0" and r: "runs wavg orderId ?s0 n" by blast
  from iterate_queue [OF runs_valid [OF r]] obtain new' where
    "executionQueue (bk ((?f ^^ n) ?s0)) = executionQueue (bk ?s0) @ new'" "length new' = n"
    by blast
  with new n have "length new = n" by (simp add: startFill_def)
  with i have i': "i < n" by simp
  with r have ri: "runs wavg orderId ?s0 i" and c: "fillCond ((?f ^^ i) ?s0)"
    by (simp_all add: runs_iff)
  from runInv_iterate [OF init ri] obtain j nw where "runInv ?s0 as j nw ((?f ^^ i) ?s0)"
    by blast
  from runInv_cond(3) [OF this c] show ?thesis by (simp add: beforeFill_def)
qed

text \<open>
  C2. Claim: the walk over the resting orders stops exactly when the taker's shares
  reach 0 or the Limit has no more orders. \<open>twoBidsLimit\<close> holds order 7 of client 1
  (2 shares) and behind it order 8 of client 2 (3 shares). When client 2 sells 4
  shares into it, \<^verbatim>\<open>processFill\<close> fills order 7 and then stops at order 8 by throwing
  the self-trade error: the taker still has 2 shares, and the Limit still has order 8
  at its head with \<^verbatim>\<open>size\<close> 1.
\<close>

theorem processFill_stops_on_self_trade:
  "wfQueue (store twoBidsBook) twoBidsLimit [0, 1] \<and>
   countsOK (store twoBidsBook) twoBidsLimit [0, 1] \<and>
   0 <s shares (intent 2 Sell 100 4) \<and>
   processFill wavgRat twoBidsLimit (intent 2 Sell 100 4) 9 twoBidsBook =
     Some (Throws SelfTradeRejected twoBidsRejected) \<and>
   map makerOrderId (executionQueue (bk twoBidsRejected)) = [7] \<and>
   shares (taker twoBidsRejected) = 2 \<and>
   limitSize (lmt twoBidsRejected) = 1 \<and>
   headOrder (lmt twoBidsRejected) = Some 1 \<and>
   fifo (store (bk twoBidsRejected)) (headOrder (lmt twoBidsRejected)) [1]"
  using twoBids_wf twoBids_counts twoBids_rejected_run
  by (simp add: twoBidsRejected_def intent_def word_sless_alt)

text \<open>
  C2, as amended. On a well-formed Limit with queue \<open>as\<close> (with \<^verbatim>\<open>size\<close> and
  \<^verbatim>\<open>totalVolume\<close> in step) and a taker with positive shares, \<^verbatim>\<open>processFill\<close> terminates
  and matches the resting orders strictly in queue order from the head: the makers of
  the Executions it appends are the orders of a prefix of \<open>as\<close>, one Execution each, and
  none of them belongs to the taker's client; the first \<open>j\<close> of them are filled for all
  their shares and unlinked, so that the Limit is left with the queue \<open>drop j as\<close>; at
  most one more order is matched, for a part of its shares, and then the taker has no
  shares left; the sizes of the Executions add up to what the taker's shares have
  dropped by. The walk stops exactly when the taker's shares reach 0, the Limit has no
  more orders, or the next resting order belongs to the taker's client: the call
  returns normally exactly in the first two cases, and when it throws, the error is the
  self-trade error, every Execution is a complete fill and the order at the head of
  the Limit belongs to the taker's client.
\<close>

theorem processFill_fifo_order:
  fixes wavg :: "32 word \<Rightarrow> 'p \<Rightarrow> 32 word \<Rightarrow> 32 word \<Rightarrow> 32 word \<Rightarrow> 'p"
  assumes wf: "wfQueue (store book) L as"
    and cnt: "countsOK (store book) L as"
    and pos: "0 <s shares takerData"
  shows "\<exists>r new j. processFill wavg L takerData orderId book = Some r \<and>
           executionQueue (bk (stateOf r)) = executionQueue book @ new \<and>
           map makerOrderId new = map (\<lambda>a. getOrderId (store book ! a)) (take (length new) as) \<and>
           (\<forall>a \<in> set (take (length new) as).
              getClientId (store book ! a) \<noteq> clientId takerData) \<and>
           map execSize (take j new) = map (\<lambda>a. getShares (store book ! a)) (take j as) \<and>
           shares (taker (stateOf r)) + sum_list (map execSize new) = shares takerData \<and>
           fifo (store (bk (stateOf r))) (headOrder (lmt (stateOf r))) (drop j as) \<and>
           (length new = j \<or>
            length new = Suc j \<and> j < length as \<and> shares (taker (stateOf r)) = 0) \<and>
           (thrown r = None \<longleftrightarrow>
              shares (taker (stateOf r)) = 0 \<or> headOrder (lmt (stateOf r)) = None) \<and>
           (thrown r \<noteq> None \<longrightarrow>
              thrown r = Some SelfTradeRejected \<and> length new = j \<and> j < length as \<and>
              getClientId (store book ! (as ! j)) = clientId takerData)"
proof -
  let ?s0 = "startFill L takerData book"
  have "0 \<le>s shares takerData" using pos by (simp add: word_sless_alt word_sle_eq)
  with wf cnt have "runInv ?s0 as 0 [] ?s0"
    by (intro runInv_init) (simp_all add: startFill_def)
  from fillLoop_match [OF this, of wavg orderId]
  obtain r j new where r: "processFill wavg L takerData orderId book = Some r"
    and inv: "runInv ?s0 as j new (stateOf r)"
    and m: "matchInv ?s0 as j new (stateOf r)"
    and out: "case r of Returns s' \<Rightarrow> \<not> fillCond s'
            | Throws e s' \<Rightarrow> e = SelfTradeRejected \<and> fillCond s' \<and> selfTrade s'"
    unfolding processFill_def by blast
  let ?t = "shares (taker (stateOf r))"
  have q: "executionQueue (bk (stateOf r)) = executionQueue book @ new"
    and ids: "map makerOrderId new = map (\<lambda>a. getOrderId (store book ! a)) (take (length new) as)"
    and ff: "fifo (store (bk (stateOf r))) (headOrder (lmt (stateOf r))) (drop j as)"
    and ln: "length new = j \<or> length new = Suc j \<and> j < length as \<and> ?t = 0"
    using inv by (auto simp: runInv_def wfQueue_def startFill_def)
  have cl: "\<forall>a \<in> set (take (length new) as).
              getClientId (store book ! a) \<noteq> clientId takerData"
    and sz: "map execSize (take j new) = map (\<lambda>a. getShares (store book ! a)) (take j as)"
    and cons: "?t + sum_list (map execSize new) = shares takerData"
    using m by (simp_all add: matchInv_def startFill_def)
  have ex: "thrown r = None \<longleftrightarrow> ?t = 0 \<or> headOrder (lmt (stateOf r)) = None"
  proof (cases r)
    case (Returns s')
    with out inv have "shares (taker s') = 0 \<or> j = length as"
      by (auto dest: runInv_stopped)
    with Returns inv show ?thesis by (auto simp: runInv_head_None)
  next
    case (Throws e s')
    with out have c: "fillCond s'" by simp
    with inv Throws have "nxtOrder s' = headOrder (lmt s')" by (simp add: runInv_def)
    with c Throws show ?thesis by (auto simp: fillCond_def)
  qed
  have th: "thrown r \<noteq> None \<longrightarrow>
              thrown r = Some SelfTradeRejected \<and> length new = j \<and> j < length as \<and>
              getClientId (store book ! (as ! j)) = clientId takerData"
  proof (cases r)
    case (Returns s')
    then show ?thesis by simp
  next
    case (Throws e s')
    with out have e: "e = SelfTradeRejected" and c: "fillCond s'" and st: "selfTrade s'"
      by simp_all
    from inv Throws have inv': "runInv ?s0 as j new s'" by simp
    note cs = runInv_cond [OF inv' c]
    from st cs(5) have "clientId (taker s') = getClientId (store (bk s') ! (as ! j))"
      by (simp add: selfTrade_def)
    moreover from inv' have "clientId (taker s') = clientId takerData"
      by (simp add: runInv_def startFill_def)
    moreover from inv' cs(6)
    have "getClientId (store (bk s') ! (as ! j)) = getClientId (store book ! (as ! j))"
      by (auto simp: runInv_def startFill_def intro: map_nth_eq)
    ultimately have "getClientId (store book ! (as ! j)) = clientId takerData" by simp
    with Throws e cs(1,2) show ?thesis by simp
  qed
  have all: "processFill wavg L takerData orderId book = Some r \<and>
           executionQueue (bk (stateOf r)) = executionQueue book @ new \<and>
           map makerOrderId new = map (\<lambda>a. getOrderId (store book ! a)) (take (length new) as) \<and>
           (\<forall>a \<in> set (take (length new) as).
              getClientId (store book ! a) \<noteq> clientId takerData) \<and>
           map execSize (take j new) = map (\<lambda>a. getShares (store book ! a)) (take j as) \<and>
           shares (taker (stateOf r)) + sum_list (map execSize new) = shares takerData \<and>
           fifo (store (bk (stateOf r))) (headOrder (lmt (stateOf r))) (drop j as) \<and>
           (length new = j \<or>
            length new = Suc j \<and> j < length as \<and> shares (taker (stateOf r)) = 0) \<and>
           (thrown r = None \<longleftrightarrow>
              shares (taker (stateOf r)) = 0 \<or> headOrder (lmt (stateOf r)) = None) \<and>
           (thrown r \<noteq> None \<longrightarrow>
              thrown r = Some SelfTradeRejected \<and> length new = j \<and> j < length as \<and>
              getClientId (store book ! (as ! j)) = clientId takerData)"
    using r q ids cl sz cons ff ln ex th by (intro conjI)
  show ?thesis
    by (rule exI [where x = r], rule exI [where x = new], rule exI [where x = j]) (rule all)
qed

theorem processFill_fifo_order_witness:
  "wfQueue (store twoBidsBook) twoBidsLimit [0, 1] \<and>
   countsOK (store twoBidsBook) twoBidsLimit [0, 1] \<and>
   0 <s shares (intent 3 Sell 100 4) \<and>
   (\<exists>r new j. processFill wavgRat twoBidsLimit (intent 3 Sell 100 4) 9 twoBidsBook = Some r \<and>
      executionQueue (bk (stateOf r)) = executionQueue twoBidsBook @ new \<and>
      map makerOrderId new =
        map (\<lambda>a. getOrderId (store twoBidsBook ! a)) (take (length new) [0, 1]) \<and>
      (\<forall>a \<in> set (take (length new) [0, 1]).
         getClientId (store twoBidsBook ! a) \<noteq> clientId (intent 3 Sell 100 4)) \<and>
      map execSize (take j new) = map (\<lambda>a. getShares (store twoBidsBook ! a)) (take j [0, 1]) \<and>
      shares (taker (stateOf r)) + sum_list (map execSize new) = shares (intent 3 Sell 100 4) \<and>
      fifo (store (bk (stateOf r))) (headOrder (lmt (stateOf r))) (drop j [0, 1]) \<and>
      (length new = j \<or>
       length new = Suc j \<and> j < length [0::nat, 1] \<and> shares (taker (stateOf r)) = 0) \<and>
      (thrown r = None \<longleftrightarrow>
         shares (taker (stateOf r)) = 0 \<or> headOrder (lmt (stateOf r)) = None) \<and>
      (thrown r \<noteq> None \<longrightarrow>
         thrown r = Some SelfTradeRejected \<and> length new = j \<and> j < length [0::nat, 1] \<and>
         getClientId (store twoBidsBook ! ([0, 1] ! j)) = clientId (intent 3 Sell 100 4)))"
  using twoBids_wf twoBids_counts seller_pos [of 3]
    processFill_fifo_order [OF twoBids_wf twoBids_counts seller_pos [of 3],
      where wavg = wavgRat and orderId = 9]
  by (intro conjI)

text \<open>
  C3. When the loop has executed its body \<open>n\<close> times and the order at \<^verbatim>\<open>nxtOrder\<close>
  then belongs to the taker's own client, \<^verbatim>\<open>processFill\<close> throws the self-trade error
  in exactly the state that the \<open>n\<close> earlier iterations have produced: the rejected
  iteration appends no Execution and changes nothing, and the \<open>n\<close> Executions of the
  earlier iterations stay in the queue of the book.
\<close>

theorem processFill_self_trade:
  fixes wavg :: "32 word \<Rightarrow> 'p \<Rightarrow> 32 word \<Rightarrow> 32 word \<Rightarrow> 32 word \<Rightarrow> 'p"
  assumes earlier: "runs wavg orderId (startFill L takerData book) n"
    and now: "fillCond (beforeFill wavg L takerData orderId book n) \<and>
              validNxt (beforeFill wavg L takerData orderId book n) \<and>
              selfTrade (beforeFill wavg L takerData orderId book n)"
  shows "processFill wavg L takerData orderId book =
           Some (Throws SelfTradeRejected (beforeFill wavg L takerData orderId book n)) \<and>
         (\<exists>new. executionQueue (bk (beforeFill wavg L takerData orderId book n)) =
                  executionQueue book @ new \<and> length new = n)"
proof -
  let ?s = "startFill L takerData book"
  let ?sn = "(fillStep wavg orderId ^^ n) ?s"
  have "fillLoop wavg orderId ?s = fillLoop wavg orderId ?sn"
    using earlier unfolding runs_iff by (rule fillLoop_iterate)
  also have "\<dots> = Some (Throws SelfTradeRejected ?sn)"
    using now by (subst fillLoop.simps) (simp add: beforeFill_def)
  finally have a: "processFill wavg L takerData orderId book = Some (Throws SelfTradeRejected ?sn)"
    by (simp add: processFill_def)
  from iterate_queue [OF runs_valid [OF earlier]]
  have "\<exists>new. executionQueue (bk ?sn) = executionQueue book @ new \<and> length new = n"
    by (simp add: startFill_def)
  with a show ?thesis by (simp add: beforeFill_def)
qed

lemma twoBids_self_earlier:
  "runs wavgRat 9 (startFill twoBidsLimit (intent 2 Sell 100 4) twoBidsBook) (Suc 0)"
  by (simp add: runs_iff run_defs startFill_def twoBidsLimit_def twoBidsBook_def)

lemma twoBids_self_now:
  "fillCond (beforeFill wavgRat twoBidsLimit (intent 2 Sell 100 4) 9 twoBidsBook (Suc 0)) \<and>
   validNxt (beforeFill wavgRat twoBidsLimit (intent 2 Sell 100 4) 9 twoBidsBook (Suc 0)) \<and>
   selfTrade (beforeFill wavgRat twoBidsLimit (intent 2 Sell 100 4) 9 twoBidsBook (Suc 0))"
  by (simp add: beforeFill_def run_defs startFill_def twoBidsLimit_def twoBidsBook_def)

theorem processFill_self_trade_witness:
  "processFill wavgRat twoBidsLimit (intent 2 Sell 100 4) 9 twoBidsBook =
     Some (Throws SelfTradeRejected
             (beforeFill wavgRat twoBidsLimit (intent 2 Sell 100 4) 9 twoBidsBook (Suc 0))) \<and>
   (\<exists>new. executionQueue (bk (beforeFill wavgRat twoBidsLimit (intent 2 Sell 100 4) 9
                                twoBidsBook (Suc 0))) =
            executionQueue twoBidsBook @ new \<and> length new = Suc 0)"
  by (rule processFill_self_trade [OF twoBids_self_earlier twoBids_self_now])

text \<open>
  C4. Let the Limit be well formed with queue \<open>as\<close> and let \<^verbatim>\<open>size\<close> be the number of
  orders of \<open>as\<close> and \<^verbatim>\<open>totalVolume\<close> the sum of their shares. Then
  \<^verbatim>\<open>addOrderToLimit\<close> with an intent of positive shares returns with the new order
  appended to the queue, and \<^verbatim>\<open>processFill\<close> with a taker of positive shares ends with
  a suffix of the queue; in both resulting states the Limit is well formed again and
  \<^verbatim>\<open>size\<close> and \<^verbatim>\<open>totalVolume\<close> are the number of orders and the sum of the shares of
  the resulting queue. (For \<^verbatim>\<open>processFill\<close> this holds when it returns and also when
  it throws.)
\<close>

theorem limit_counts_preserved:
  fixes wavg :: "32 word \<Rightarrow> 'p \<Rightarrow> 32 word \<Rightarrow> 32 word \<Rightarrow> 32 word \<Rightarrow> 'p"
  assumes wf: "wfQueue (store book) L as"
    and cnt: "countsOK (store book) L as"
  shows "(0 <s shares orderData \<and> Suc (length as) < 2 ^ 31 \<longrightarrow>
           (\<exists>L' book'. addOrderToLimit L orderData book newOrderId = Inr (L', book') \<and>
              wfQueue (store book') L' (as @ [length (store book)]) \<and>
              countsOK (store book') L' (as @ [length (store book)]))) \<and>
         (0 <s shares takerData \<longrightarrow>
           (\<exists>r j. processFill wavg L takerData orderId book = Some r \<and> j \<le> length as \<and>
              wfQueue (store (bk (stateOf r))) (lmt (stateOf r)) (drop j as) \<and>
              countsOK (store (bk (stateOf r))) (lmt (stateOf r)) (drop j as)))"
proof (intro conjI impI)
  assume "0 <s shares orderData \<and> Suc (length as) < 2 ^ 31"
  then show "\<exists>L' book'. addOrderToLimit L orderData book newOrderId = Inr (L', book') \<and>
              wfQueue (store book') L' (as @ [length (store book)]) \<and>
              countsOK (store book') L' (as @ [length (store book)])"
    using addOrderToLimit_inv [OF wf cnt] by blast
next
  assume pos: "0 <s shares takerData"
  from processFill_run [OF wf cnt pos, of wavg orderId]
  obtain r j new where r: "processFill wavg L takerData orderId book = Some r"
    and inv: "runInv (startFill L takerData book) as j new (stateOf r)"
    by blast
  from inv have "j \<le> length as"
    and "wfQueue (store (bk (stateOf r))) (lmt (stateOf r)) (drop j as)"
    and "countsOK (store (bk (stateOf r))) (lmt (stateOf r)) (drop j as)"
    by (simp_all add: runInv_def)
  with r show "\<exists>r j. processFill wavg L takerData orderId book = Some r \<and> j \<le> length as \<and>
              wfQueue (store (bk (stateOf r))) (lmt (stateOf r)) (drop j as) \<and>
              countsOK (store (bk (stateOf r))) (lmt (stateOf r)) (drop j as)"
    by blast
qed

lemma small_queue: "0 <s shares (intent 3 Buy 100 6) \<and> Suc (length [0::nat, 1]) < 2 ^ 31"
  by (simp add: intent_def word_sless_alt)

theorem limit_counts_preserved_witness:
  "(\<exists>L' book'. addOrderToLimit twoBidsLimit (intent 3 Buy 100 6) twoBidsBook 10 = Inr (L', book') \<and>
      wfQueue (store book') L' ([0, 1] @ [length (store twoBidsBook)]) \<and>
      countsOK (store book') L' ([0, 1] @ [length (store twoBidsBook)])) \<and>
   (\<exists>r j. processFill wavgRat twoBidsLimit (intent 3 Sell 100 4) 9 twoBidsBook = Some r \<and>
      j \<le> length [0::nat, 1] \<and>
      wfQueue (store (bk (stateOf r))) (lmt (stateOf r)) (drop j [0, 1]) \<and>
      countsOK (store (bk (stateOf r))) (lmt (stateOf r)) (drop j [0, 1]))"
  using limit_counts_preserved [OF twoBids_wf twoBids_counts,
      where orderData = "intent 3 Buy 100 6" and newOrderId = 10 and wavg = wavgRat
        and takerData = "intent 3 Sell 100 4" and orderId = 9]
    small_queue seller_pos [of 3]
  by blast

lemma fillStep_execution_values:
  fixes wavg :: "32 word \<Rightarrow> 'p \<Rightarrow> 32 word \<Rightarrow> 32 word \<Rightarrow> 32 word \<Rightarrow> 'p"
  assumes "nxtOrder s = Some a"
  shows "\<exists>e. executionQueue (bk (fillStep wavg orderId s)) = executionQueue (bk s) @ [e] \<and>
           execPrice e = getLimit (store (bk s) ! a) \<and>
           sint (execSize e) = min (sint (getShares (store (bk s) ! a))) (sint (shares (taker s))) \<and>
           makerLeavesQty e = getShares (store (bk s) ! a) - execSize e \<and>
           takerLeavesQty e = shares (taker s) - execSize e"
proof -
  from assms(1) have s': "fillStep wavg orderId s = fillBody wavg orderId a s"
    by (rule fillStep_Some)
  from fillBody_execution [of wavg orderId a s] obtain e where
    "executionQueue (bk (fillBody wavg orderId a s)) = executionQueue (bk s) @ [e]"
    "execPrice e = getLimit (store (bk s) ! a)"
    "execSize e = stdMin (getShares (store (bk s) ! a)) (shares (taker s))"
    "makerLeavesQty e = getShares (store (bk s) ! a) - execSize e"
    "takerLeavesQty e = shares (taker s) - execSize e"
    by blast
  then show ?thesis unfolding s' by (auto simp: sint_stdMin)
qed

text \<open>
  C5. Let \<open>new\<close> be the Executions that a call of \<^verbatim>\<open>processFill\<close> appends. The
  Execution with index \<open>i\<close> is the one of the iteration with index \<open>i\<close>: with \<open>s\<close> the
  state before that iteration and the maker the order at \<^verbatim>\<open>nxtOrder\<close>, its
  \<open>execPrice\<close> is the limit price of the maker, its \<open>execSize\<close> the smaller of the
  maker's and the taker's shares in \<open>s\<close> (compared as \<^verbatim>\<open>int\<close>), its \<open>makerLeavesQty\<close>
  the maker's shares minus \<open>execSize\<close> and its \<open>takerLeavesQty\<close> the taker's shares
  minus \<open>execSize\<close>.
\<close>

theorem processFill_execution_values:
  fixes wavg :: "32 word \<Rightarrow> 'p \<Rightarrow> 32 word \<Rightarrow> 32 word \<Rightarrow> 32 word \<Rightarrow> 'p"
  assumes run: "processFill wavg L takerData orderId book = Some r"
    and new: "executionQueue (bk (stateOf r)) = executionQueue book @ new"
    and i: "i < length new"
  shows "let s = beforeFill wavg L takerData orderId book i in
         \<exists>a. nxtOrder s = Some a \<and> a < length (store (bk s)) \<and>
           execPrice (new ! i) = getLimit (store (bk s) ! a) \<and>
           sint (execSize (new ! i)) =
             min (sint (getShares (store (bk s) ! a))) (sint (shares (taker s))) \<and>
           makerLeavesQty (new ! i) = getShares (store (bk s) ! a) - execSize (new ! i) \<and>
           takerLeavesQty (new ! i) = shares (taker s) - execSize (new ! i)"
proof -
  let ?s = "beforeFill wavg L takerData orderId book i"
  from processFill_iterates [OF run new i]
  obtain a where a: "nxtOrder ?s = Some a" "a < length (store (bk ?s))"
    and q: "executionQueue (bk (fillStep wavg orderId ?s)) = executionQueue (bk ?s) @ [new ! i]"
    unfolding beforeFill_def by blast
  from fillStep_execution_values [OF a(1), of wavg orderId] q
  have "execPrice (new ! i) = getLimit (store (bk ?s) ! a) \<and>
           sint (execSize (new ! i)) =
             min (sint (getShares (store (bk ?s) ! a))) (sint (shares (taker ?s))) \<and>
           makerLeavesQty (new ! i) = getShares (store (bk ?s) ! a) - execSize (new ! i) \<and>
           takerLeavesQty (new ! i) = shares (taker ?s) - execSize (new ! i)"
    by auto
  with a show ?thesis unfolding Let_def by blast
qed

theorem processFill_execution_values_witness:
  "let s = beforeFill wavgRat twoBidsLimit (intent 3 Sell 100 4) 9 twoBidsBook (Suc 0) in
   \<exists>a. nxtOrder s = Some a \<and> a < length (store (bk s)) \<and>
     execPrice (executionQueue (bk twoBidsFilled) ! Suc 0) = getLimit (store (bk s) ! a) \<and>
     sint (execSize (executionQueue (bk twoBidsFilled) ! Suc 0)) =
       min (sint (getShares (store (bk s) ! a))) (sint (shares (taker s))) \<and>
     makerLeavesQty (executionQueue (bk twoBidsFilled) ! Suc 0) =
       getShares (store (bk s) ! a) - execSize (executionQueue (bk twoBidsFilled) ! Suc 0) \<and>
     takerLeavesQty (executionQueue (bk twoBidsFilled) ! Suc 0) =
       shares (taker s) - execSize (executionQueue (bk twoBidsFilled) ! Suc 0)"
  by (rule processFill_execution_values [OF twoBids_run twoBids_new twoBids_second])

lemma fillStep_execution_types:
  fixes wavg :: "32 word \<Rightarrow> 'p \<Rightarrow> 32 word \<Rightarrow> 32 word \<Rightarrow> 32 word \<Rightarrow> 'p"
  assumes nxt: "nxtOrder s = Some a" and pos: "0 <s shares (taker s)"
  shows "\<exists>e. executionQueue (bk (fillStep wavg orderId s)) = executionQueue (bk s) @ [e] \<and>
           (makerExecType e = FullFill \<longleftrightarrow> execSize e = getShares (store (bk s) ! a)) \<and>
           (makerExecType e = PartialFill \<longleftrightarrow> execSize e \<noteq> getShares (store (bk s) ! a)) \<and>
           (takerExecType e = FullFill \<longleftrightarrow> shares (taker (fillStep wavg orderId s)) = 0) \<and>
           (takerExecType e = PartialFill \<longleftrightarrow> shares (taker (fillStep wavg orderId s)) \<noteq> 0)"
proof -
  let ?m = "getShares (store (bk s) ! a)"
  let ?t = "shares (taker s)"
  from nxt have s': "fillStep wavg orderId s = fillBody wavg orderId a s"
    by (rule fillStep_Some)
  from fillBody_execution [of wavg orderId a s] obtain e where
    q: "executionQueue (bk (fillBody wavg orderId a s)) = executionQueue (bk s) @ [e]"
    and sz: "execSize e = stdMin ?m ?t"
    and mt: "makerExecType e = (if execSize e = ?m then FullFill else PartialFill)"
    and tt: "takerExecType e = (if ?t - execSize e = 0 then FullFill else PartialFill)"
    by blast
  have after: "shares (taker (fillBody wavg orderId a s)) = ?t - stdMin ?m ?t"
  proof (cases "?m \<le>s ?t")
    case True
    then show ?thesis by (simp add: fillBody_taker stdMin_full)
  next
    case False
    then have part: "?t <s ?m" using sle_or_sless by blast
    then have "\<not> ?m \<le> ?t" using pos pos_sless_unsigned by blast
    with part show ?thesis by (simp add: fillBody_taker stdMin_part)
  qed
  have "(makerExecType e = FullFill \<longleftrightarrow> execSize e = ?m) \<and>
        (makerExecType e = PartialFill \<longleftrightarrow> execSize e \<noteq> ?m) \<and>
        (takerExecType e = FullFill \<longleftrightarrow> shares (taker (fillBody wavg orderId a s)) = 0) \<and>
        (takerExecType e = PartialFill \<longleftrightarrow> shares (taker (fillBody wavg orderId a s)) \<noteq> 0)"
    using mt tt sz after by simp
  with q show ?thesis unfolding s' by blast
qed

text \<open>
  C7. Let \<open>new\<close> be the Executions that a call of \<^verbatim>\<open>processFill\<close> appends, \<open>s\<close> the
  state before the iteration with index \<open>i\<close> and \<open>s'\<close> the state after it. The
  \<open>makerExecType\<close> of the Execution with index \<open>i\<close> is \<open>FullFill\<close> exactly when its
  executed volume equals the shares that the maker has in \<open>s\<close>, and \<open>PartialFill\<close>
  otherwise; when the taker's shares in \<open>s\<close> are positive, its \<open>takerExecType\<close> is
  \<open>FullFill\<close> exactly when the taker's shares in \<open>s'\<close> are 0, and \<open>PartialFill\<close>
  otherwise. (The taker's shares are positive before every iteration of a call on a
  well-formed Limit with a taker of positive shares: \<open>beforeFill_taker_positive\<close>.)
\<close>

theorem processFill_execution_types:
  fixes wavg :: "32 word \<Rightarrow> 'p \<Rightarrow> 32 word \<Rightarrow> 32 word \<Rightarrow> 32 word \<Rightarrow> 'p"
  assumes run: "processFill wavg L takerData orderId book = Some r"
    and new: "executionQueue (bk (stateOf r)) = executionQueue book @ new"
    and i: "i < length new"
    and pos: "0 <s shares (taker (beforeFill wavg L takerData orderId book i))"
  shows "let s = beforeFill wavg L takerData orderId book i;
             s' = beforeFill wavg L takerData orderId book (Suc i) in
         \<exists>a. nxtOrder s = Some a \<and> a < length (store (bk s)) \<and>
           (makerExecType (new ! i) = FullFill \<longleftrightarrow>
              execSize (new ! i) = getShares (store (bk s) ! a)) \<and>
           (makerExecType (new ! i) = PartialFill \<longleftrightarrow>
              execSize (new ! i) \<noteq> getShares (store (bk s) ! a)) \<and>
           (takerExecType (new ! i) = FullFill \<longleftrightarrow> shares (taker s') = 0) \<and>
           (takerExecType (new ! i) = PartialFill \<longleftrightarrow> shares (taker s') \<noteq> 0)"
proof -
  let ?s = "beforeFill wavg L takerData orderId book i"
  let ?s' = "beforeFill wavg L takerData orderId book (Suc i)"
  from processFill_iterates [OF run new i]
  obtain a where a: "nxtOrder ?s = Some a" "a < length (store (bk ?s))"
    and q: "executionQueue (bk (fillStep wavg orderId ?s)) = executionQueue (bk ?s) @ [new ! i]"
    unfolding beforeFill_def by blast
  from fillStep_execution_types [OF a(1) pos, of wavg orderId] q
  have "(makerExecType (new ! i) = FullFill \<longleftrightarrow>
              execSize (new ! i) = getShares (store (bk ?s) ! a)) \<and>
           (makerExecType (new ! i) = PartialFill \<longleftrightarrow>
              execSize (new ! i) \<noteq> getShares (store (bk ?s) ! a)) \<and>
           (takerExecType (new ! i) = FullFill \<longleftrightarrow> shares (taker ?s') = 0) \<and>
           (takerExecType (new ! i) = PartialFill \<longleftrightarrow> shares (taker ?s') \<noteq> 0)"
    unfolding beforeFill_Suc by auto
  with a show ?thesis unfolding Let_def by blast
qed

theorem processFill_execution_types_witness:
  "let s = beforeFill wavgRat twoBidsLimit (intent 3 Sell 100 4) 9 twoBidsBook (Suc 0);
       s' = beforeFill wavgRat twoBidsLimit (intent 3 Sell 100 4) 9 twoBidsBook (Suc (Suc 0)) in
   \<exists>a. nxtOrder s = Some a \<and> a < length (store (bk s)) \<and>
     (makerExecType (executionQueue (bk twoBidsFilled) ! Suc 0) = FullFill \<longleftrightarrow>
        execSize (executionQueue (bk twoBidsFilled) ! Suc 0) = getShares (store (bk s) ! a)) \<and>
     (makerExecType (executionQueue (bk twoBidsFilled) ! Suc 0) = PartialFill \<longleftrightarrow>
        execSize (executionQueue (bk twoBidsFilled) ! Suc 0) \<noteq> getShares (store (bk s) ! a)) \<and>
     (takerExecType (executionQueue (bk twoBidsFilled) ! Suc 0) = FullFill \<longleftrightarrow>
        shares (taker s') = 0) \<and>
     (takerExecType (executionQueue (bk twoBidsFilled) ! Suc 0) = PartialFill \<longleftrightarrow>
        shares (taker s') \<noteq> 0)"
  by (rule processFill_execution_types [OF twoBids_run twoBids_new twoBids_second
        beforeFill_taker_positive [OF twoBids_wf twoBids_counts seller_pos
          twoBids_run twoBids_new twoBids_second]])

text \<open>
  C8. Claim: \<^verbatim>\<open>size == 0\<close> holds exactly when \<^verbatim>\<open>headOrder\<close> and \<^verbatim>\<open>tailOrder\<close> are both
  null, in particular after \<^verbatim>\<open>processFill\<close> has consumed the last resting order. The
  loop sets \<^verbatim>\<open>headOrder\<close> to the successor of a consumed order and never assigns
  \<^verbatim>\<open>tailOrder\<close>: after the only resting order is filled, \<^verbatim>\<open>size\<close> is 0 and
  \<^verbatim>\<open>headOrder\<close> is null, while \<^verbatim>\<open>tailOrder\<close> still points to the consumed order.
\<close>

theorem processFill_leaves_tail:
  "processFill wavgRat oneBidLimit (intent 2 Sell 100 5) 9 oneBidBook = Some (Returns oneBidFilled) \<and>
   limitSize (lmt oneBidFilled) = 0 \<and>
   headOrder (lmt oneBidFilled) = None \<and>
   tailOrder (lmt oneBidFilled) = Some 0"
  using oneBid_run by (simp add: oneBidFilled_def)

text \<open>
  C9. Claim: a maker that \<^verbatim>\<open>processFill\<close> fills completely is unlinked, counted out of
  \<^verbatim>\<open>size\<close> and removed from the OrderIndex, so that every order of the OrderIndex
  rests in some queue. On the sample book the only resting order, order 7, is filled
  completely; the queue of the Limit is empty afterwards, and \<^verbatim>\<open>allOrders\<close> still maps
  7 to the Order object.
\<close>

theorem processFill_keeps_index_entry:
  "processFill wavgRat oneBidLimit (intent 2 Sell 100 5) 9 oneBidBook = Some (Returns oneBidFilled) \<and>
   map makerOrderId (executionQueue (bk oneBidFilled)) = [7] \<and>
   map makerExecType (executionQueue (bk oneBidFilled)) = [FullFill] \<and>
   fifo (store (bk oneBidFilled)) (headOrder (lmt oneBidFilled)) [] \<and>
   limitSize (lmt oneBidFilled) = 0 \<and>
   allOrders (bk oneBidFilled) 7 = Some 0"
  using oneBid_run by (simp add: oneBidFilled_def)

text \<open>
  C9, as amended. On a well-formed Limit with queue \<open>as\<close> and a taker with positive
  shares, let \<open>j\<close> be the number of Executions of the call whose \<open>makerExecType\<close> is
  \<open>FullFill\<close>. Afterwards the queue of the Limit is \<open>as\<close> without its first \<open>j\<close>
  orders, \<^verbatim>\<open>size\<close> has been decremented \<open>j\<close> times, and the OrderIndex \<^verbatim>\<open>allOrders\<close> is
  the one before the call.
\<close>

theorem processFill_unlinks_not_index:
  fixes wavg :: "32 word \<Rightarrow> 'p \<Rightarrow> 32 word \<Rightarrow> 32 word \<Rightarrow> 32 word \<Rightarrow> 'p"
  assumes wf: "wfQueue (store book) L as"
    and cnt: "countsOK (store book) L as"
    and pos: "0 <s shares takerData"
  shows "\<exists>r new j. processFill wavg L takerData orderId book = Some r \<and>
           executionQueue (bk (stateOf r)) = executionQueue book @ new \<and>
           j = length (filter (\<lambda>e. makerExecType e = FullFill) new) \<and>
           fifo (store (bk (stateOf r))) (headOrder (lmt (stateOf r))) (drop j as) \<and>
           unat (limitSize (lmt (stateOf r))) = length as - j \<and>
           allOrders (bk (stateOf r)) = allOrders book"
proof -
  let ?s0 = "startFill L takerData book"
  from processFill_run [OF wf cnt pos, of wavg orderId]
  obtain r j new where r: "processFill wavg L takerData orderId book = Some r"
    and inv: "runInv ?s0 as j new (stateOf r)"
    by blast
  have q: "executionQueue (bk (stateOf r)) = executionQueue book @ new"
    and ff: "fifo (store (bk (stateOf r))) (headOrder (lmt (stateOf r))) (drop j as)"
    and sz: "unat (limitSize (lmt (stateOf r))) = length as - j"
    and ao: "allOrders (bk (stateOf r)) = allOrders book"
    and ty: "map makerExecType new = replicate j FullFill @ replicate (length new - j) PartialFill"
    using inv by (auto simp: runInv_def wfQueue_def countsOK_def startFill_def)
  from ty have jj: "j = length (filter (\<lambda>e. makerExecType e = FullFill) new)"
    by (simp add: fullfill_count)
  have all: "processFill wavg L takerData orderId book = Some r \<and>
           executionQueue (bk (stateOf r)) = executionQueue book @ new \<and>
           j = length (filter (\<lambda>e. makerExecType e = FullFill) new) \<and>
           fifo (store (bk (stateOf r))) (headOrder (lmt (stateOf r))) (drop j as) \<and>
           unat (limitSize (lmt (stateOf r))) = length as - j \<and>
           allOrders (bk (stateOf r)) = allOrders book"
    using r q jj ff sz ao by (intro conjI)
  show ?thesis
    by (rule exI [where x = r], rule exI [where x = new], rule exI [where x = j]) (rule all)
qed

theorem processFill_unlinks_not_index_witness:
  "\<exists>r new j. processFill wavgRat twoBidsLimit (intent 3 Sell 100 4) 9 twoBidsBook = Some r \<and>
     executionQueue (bk (stateOf r)) = executionQueue twoBidsBook @ new \<and>
     j = length (filter (\<lambda>e. makerExecType e = FullFill) new) \<and>
     fifo (store (bk (stateOf r))) (headOrder (lmt (stateOf r))) (drop j [0, 1]) \<and>
     unat (limitSize (lmt (stateOf r))) = length [0::nat, 1] - j \<and>
     allOrders (bk (stateOf r)) = allOrders twoBidsBook"
  by (rule processFill_unlinks_not_index [OF twoBids_wf twoBids_counts seller_pos])

text \<open>
  C10. Whenever the chain from \<^verbatim>\<open>headOrder\<close> is a null-terminated queue \<open>as\<close>,
  \<^verbatim>\<open>processFill\<close> terminates, whatever the shares, clients and aggregates are: an
  iteration either moves \<^verbatim>\<open>nxtOrder\<close> to the successor of the current maker or
  leaves the taker without shares. The body is executed at most once for each order of
  the queue, so the call appends at most \<open>length as\<close> Executions.
\<close>

theorem processFill_terminates:
  fixes wavg :: "32 word \<Rightarrow> 'p \<Rightarrow> 32 word \<Rightarrow> 32 word \<Rightarrow> 32 word \<Rightarrow> 'p"
  assumes q: "fifo (store book) (headOrder L) as"
  shows "\<exists>r. processFill wavg L takerData orderId book = Some r \<and>
           length (executionQueue (bk (stateOf r))) \<le> length (executionQueue book) + length as"
proof -
  let ?s0 = "startFill L takerData book"
  let ?q0 = "length (executionQueue book)"
  define I :: "nat \<Rightarrow> 'p fill \<Rightarrow> bool" where "I = (\<lambda>n s. \<exists>bs. fifo (store (bk s)) (nxtOrder s) bs \<and> length bs \<le> length as \<and>
              length (executionQueue (bk s)) \<le>
                ?q0 + (length as - length bs) + (if shares (taker s) = 0 \<and> bs \<noteq> [] then 1 else 0) \<and>
              n = 2 * length bs + (if shares (taker s) = 0 then 0 else 1))"
  have step: "validNxt s \<and> (\<not> selfTrade s \<longrightarrow> (\<exists>n'<n. I n' (fillStep wavg orderId s)))"
    if I: "I n s" and c: "fillCond s" for n s
  proof -
    from I obtain bs where f: "fifo (store (bk s)) (nxtOrder s) bs"
      and le: "length bs \<le> length as"
      and ex: "length (executionQueue (bk s)) \<le>
                ?q0 + (length as - length bs) + (if shares (taker s) = 0 \<and> bs \<noteq> [] then 1 else 0)"
      and n: "n = 2 * length bs + (if shares (taker s) = 0 then 0 else 1)"
      unfolding I_def by blast
    from c have nz: "shares (taker s) \<noteq> 0" and nn: "nxtOrder s \<noteq> None"
      by (simp_all add: fillCond_def)
    from f nn obtain a cs where bs: "bs = a # cs" by (cases bs) auto
    with f have a: "nxtOrder s = Some a" "a < length (store (bk s))"
      and rest: "fifo (store (bk s)) (getNextOrder (store (bk s) ! a)) cs"
      by simp_all
    from a have v: "validNxt s" by (simp add: validNxt_def)
    let ?s' = "fillStep wavg orderId s"
    let ?m = "getShares (store (bk s) ! a)"
    let ?ev = "stdMin ?m (shares (taker s))"
    have s': "?s' = fillBody wavg orderId a s" using a(1) by (rule fillStep_Some)
    obtain e where q': "executionQueue (bk ?s') = executionQueue (bk s) @ [e]"
      using fillBody_execution [of wavg orderId a s] unfolding s' by blast
    have "\<exists>n'<n. I n' ?s'"
    proof (cases "?m \<le> ?ev")
      case True
      have "fifo (store (bk ?s')) (nxtOrder ?s') cs"
        using rest True by (simp add: s' fifo_fillBody fillBody_nxt)
      moreover have "length cs \<le> length as" using le bs by simp
      moreover have "length (executionQueue (bk ?s')) \<le>
          ?q0 + (length as - length cs) + (if shares (taker ?s') = 0 \<and> cs \<noteq> [] then 1 else 0)"
        using ex nz le bs by (simp add: q')
      moreover have "2 * length cs + (if shares (taker ?s') = 0 then 0 else 1) < n"
        using n nz bs by simp
      ultimately show ?thesis unfolding I_def by blast
    next
      case False
      then have "?ev = shares (taker s)" by (rule stdMin_not_le)
      with False have z: "shares (taker ?s') = 0" by (simp add: s' fillBody_taker)
      have "fifo (store (bk ?s')) (nxtOrder ?s') bs"
        using f False by (simp add: s' fifo_fillBody fillBody_nxt)
      moreover have "length (executionQueue (bk ?s')) \<le>
          ?q0 + (length as - length bs) + (if shares (taker ?s') = 0 \<and> bs \<noteq> [] then 1 else 0)"
        using ex nz bs z by (simp add: q')
      moreover have "2 * length bs + (if shares (taker ?s') = 0 then 0 else 1) < n"
        using n nz z by simp
      ultimately show ?thesis using le unfolding I_def by blast
    qed
    with v show ?thesis by simp
  qed
  have init: "I (2 * length as + (if shares takerData = 0 then 0 else 1)) ?s0"
    unfolding I_def using q by (intro exI [where x = as]) (simp add: startFill_def)
  have "\<exists>r n'. fillLoop wavg orderId ?s0 = Some r \<and> I n' (stateOf r) \<and>
           (case r of Returns s' \<Rightarrow> \<not> fillCond s'
            | Throws e s' \<Rightarrow> e = SelfTradeRejected \<and> fillCond s' \<and> selfTrade s')"
    by (rule fillLoop_rule [where I = I, OF _ init]) (rule step)
  then obtain r n' where r: "fillLoop wavg orderId ?s0 = Some r" and "I n' (stateOf r)"
    by blast
  then obtain bs where "fifo (store (bk (stateOf r))) (nxtOrder (stateOf r)) bs"
    and le: "length bs \<le> length as"
    and ex: "length (executionQueue (bk (stateOf r))) \<le>
        ?q0 + (length as - length bs) + (if shares (taker (stateOf r)) = 0 \<and> bs \<noteq> [] then 1 else 0)"
    and "n' = 2 * length bs + (if shares (taker (stateOf r)) = 0 then 0 else 1)"
    unfolding I_def by blast
  have "length (executionQueue (bk (stateOf r))) \<le> ?q0 + length as"
  proof (cases "bs = []")
    case True
    with ex show ?thesis by simp
  next
    case False
    then have "0 < length bs" by simp
    moreover have "(if shares (taker (stateOf r)) = 0 \<and> bs \<noteq> [] then 1 else 0) \<le> (1::nat)"
      by simp
    ultimately show ?thesis using ex le by arith
  qed
  with r show ?thesis unfolding processFill_def by blast
qed

theorem processFill_terminates_witness:
  "\<exists>r. processFill wavgRat twoBidsLimit (intent 3 Sell 100 4) 9 twoBidsBook = Some r \<and>
     length (executionQueue (bk (stateOf r))) \<le> length (executionQueue twoBidsBook) + length [0::nat, 1]"
proof -
  have "fifo (store twoBidsBook) (headOrder twoBidsLimit) [0, 1]"
    by (simp add: twoBidsBook_def twoBidsLimit_def newOrder_def)
  from processFill_terminates [OF this] show ?thesis .
qed

end
